theory Spec2Isabelle
  imports Main "HOL-Library.Multiset"
begin

section \<open>JavaScript values\<close>

text \<open>
  The pool (lib/pool.js) computes with JavaScript numbers that may be missing. Three kinds of
  value occur: \<open>undefined\<close> (an option or a field that was never set), \<open>NaN\<close> (the result of
  arithmetic on \<open>undefined\<close>) and a number. Timestamps and timeouts are milliseconds, taken
  as integers; all counts stay far below $2^{53}$, where JavaScript's doubles are exact.
\<close>

datatype jsval = Undefined | NaN | Num int

text \<open>Truthiness: \<open>undefined\<close>, \<open>NaN\<close> and \<open>0\<close> are falsy.\<close>

fun truthy :: "jsval \<Rightarrow> bool" where
  "truthy (Num n) = (n \<noteq> 0)"
| "truthy Undefined = False"
| "truthy NaN = False"

text \<open>\<open>a || b\<close>\<close>

definition js_or :: "jsval \<Rightarrow> jsval \<Rightarrow> jsval" where
  "js_or a b = (if truthy a then a else b)"

text \<open>\<open>a || d\<close> for a numeric literal \<open>d\<close>: always a number.\<close>

fun or_default :: "jsval \<Rightarrow> int \<Rightarrow> int" where
  "or_default (Num n) d = (if n \<noteq> 0 then n else d)"
| "or_default Undefined d = d"
| "or_default NaN d = d"

text \<open>\<open>a + b\<close> on numbers; \<open>undefined\<close> converts to \<open>NaN\<close>, and \<open>NaN\<close> is absorbing.\<close>

fun js_add :: "jsval \<Rightarrow> jsval \<Rightarrow> jsval" where
  "js_add (Num a) (Num b) = Num (a + b)"
| "js_add _ _ = NaN"

text \<open>Comparisons: any comparison with \<open>NaN\<close> (or \<open>undefined\<close>, which converts to it) is false.\<close>

fun js_lt :: "jsval \<Rightarrow> jsval \<Rightarrow> bool" where
  "js_lt (Num a) (Num b) = (a < b)"
| "js_lt _ _ = False"

definition js_gt :: "jsval \<Rightarrow> jsval \<Rightarrow> bool" where
  "js_gt a b = js_lt b a"

fun js_ge :: "jsval \<Rightarrow> jsval \<Rightarrow> bool" where
  "js_ge (Num a) (Num b) = (a \<ge> b)"
| "js_ge _ _ = False"

text \<open>The global \<open>isNaN(x)\<close>: true for \<open>NaN\<close> and for \<open>undefined\<close>.\<close>

fun isNaN :: "jsval \<Rightarrow> bool" where
  "isNaN (Num _) = False"
| "isNaN Undefined = True"
| "isNaN NaN = True"

section \<open>Data model\<close>

datatype errcode =
    POOL_ACQUIRE_DURING_DRAINING
  | POOL_ACQUIRE_TIMEOUT_ERROR
  | POOL_ACQUIRE_ABORTED_BY_DRAIN
  | POOL_MAX_REQUESTS_LIMIT

text \<open>What a request's \<open>done\<close> callback receives: \<open>done(err)\<close> or \<open>done(null, value)\<close>.\<close>

datatype 'v reply = Failure errcode | Success 'v

text \<open>The options of \<open>acquire\<close> and \<open>acquireSync\<close>: \<open>{timeout: ...}\<close>.\<close>

record acquire_options =
  timeout :: jsval

text \<open>
  A \<open>done\<close> callback is client code that runs inside the pool's own call, and it may call
  the pool again before it returns. It is given here by the calls it makes, in their order,
  chosen from the reply it gets: any of the pool's public methods, \<open>acquire\<close> with a callback of
  its own among them. The \<open>done\<close> of a \<open>drain\<close> runs in a turn of the event loop of its own and
  is known by a number.
\<close>

datatype 'v call =
    CallAcquire "acquire_options option" "'v reply \<Rightarrow> 'v call list"
  | CallAcquireSync "acquire_options option"
  | CallRelease 'v
  | CallDestroy 'v
  | CallDrain "nat option"
  | CallSetMaintenanceInterval int

text \<open>
  A request object. \<open>rid\<close> stands for the object's identity (requests are numbered as they
  are created); \<open>originalCall\<close>, an \<open>Error\<close> kept for its stack trace, is left out.
\<close>

record 'v request =
  rid :: nat
  done_cb :: "('v reply \<Rightarrow> 'v call list) option"
  req_createdAt :: int
  acquireTimeoutAt :: jsval

text \<open>
  A resource object. \<open>resId\<close> stands for the object's identity; \<open>idleAt\<close> and \<open>request\<close> are
  properties that are added and deleted (\<open>Undefined\<close> and \<open>None\<close> when not there); \<open>request\<close>
  refers to the request object by its identity.
\<close>

record 'v resource =
  resId :: nat
  rvalue :: 'v
  createdAt :: int
  expiresAt :: jsval
  idleAt :: jsval
  request :: "nat option"

text \<open>
  What the pool does to the outside, in the order it does it: the events it emits, the
  \<open>done\<close> callbacks it invokes and its calls of the factory.
\<close>

datatype 'v effect =
    EmitEnqueueRequest nat
  | EmitServeError errcode nat
  | EmitServeSuccess nat 'v
  | EmitCreateSuccess 'v
  | EmitCreateError
  | EmitRelease "'v resource"
  | EmitDestroy "'v resource"
  | EmitDrain
  | CallDone nat "'v reply"
  | CallDrainDone nat
  | FactoryCreate
  | FactoryDestroy "'v resource"

text \<open>
  The factory's \<open>create(cb)\<close> either calls \<open>cb\<close> before it returns (with a value or with an
  error) or keeps it for later.
\<close>

datatype 'v outcome = Later | CreatedNow 'v | FailedNow

text \<open>What \<open>tick\<close> (\<open>setImmediate\<close>) has queued: a drain's \<open>done\<close>, or a re-check of \<open>_waitDrain\<close>.\<close>

datatype task = DrainDone nat | WaitDrain "nat option"

text \<open>The fields of the pool that the constructor sets from the options and nothing changes.\<close>

record 'v config =
  validateResource :: "'v resource \<Rightarrow> bool"
  compareResources :: "'v \<Rightarrow> 'v \<Rightarrow> bool"
  factoryCreate :: "nat \<Rightarrow> 'v outcome"
  factoryDestroySync :: "'v resource \<Rightarrow> bool"
  backoff :: "int option"
  pool_min :: int
  pool_max :: int
  maxCreating :: jsval
  maxRequests :: jsval
  acquireTimeout :: jsval
  idleTimeout :: jsval
  idleCheckInterval :: int
  expireTimeout :: jsval
  expireCheckInterval :: int
  maintenanceTimeout :: int

text \<open>
  The pool object. After the fields of the source come those of its environment: the clock
  that \<open>timeNow()\<close> reads, the counters that number request and resource objects and the
  factory's \<open>create\<close> calls, the callbacks and timers that are outstanding, and the effects so
  far. \<open>isMaintaining\<close> and \<open>isMaintenanceScheduled\<close> are \<open>undefined\<close> until first set, which
  the source's tests \<open>=== true\<close> and \<open>!== true\<close> treat as false.
\<close>

record 'v pool =
  cfg :: "'v config"
  maintenanceInterval :: int
  agingRequests :: "'v request list"
  agelessRequests :: "'v request list"
  freeResources :: "'v resource list"
  lentResources :: "'v resource list"
  creatingResourceCount :: int
  destroyingResourceCount :: int
  lastIdleCheckAt :: int
  lastExpireCheckAt :: int
  isDraining :: bool
  isMaintaining :: bool
  isMaintenanceScheduled :: bool
  maintenanceIntervalID :: "int option"
  clock :: int
  nextRid :: nat
  nextResId :: nat
  createCalls :: nat
  pendingCreates :: nat
  pendingBackoffs :: nat
  pendingTimeouts :: nat
  pendingTicks :: "task list"
  trace :: "'v effect list"

section \<open>The pool's functions\<close>

definition emit :: "'v effect \<Rightarrow> 'v pool \<Rightarrow> 'v pool" where
  "emit e s = s\<lparr>trace := trace s @ [e]\<rparr>"

text \<open>\<open>_createRequest(options, done)\<close>; \<open>options || {}\<close> makes a missing options object empty.\<close>

definition timeout_of :: "acquire_options option \<Rightarrow> jsval" where
  "timeout_of options = (case options of None \<Rightarrow> Undefined | Some opts \<Rightarrow> timeout opts)"

definition createRequest ::
  "acquire_options option \<Rightarrow> ('v reply \<Rightarrow> 'v call list) option \<Rightarrow> 'v pool \<Rightarrow> 'v request \<times> 'v pool"
where
  "createRequest options dn s =
     (let now = clock s in
      (\<lparr>rid = nextRid s, done_cb = dn, req_createdAt = now,
        acquireTimeoutAt = js_add (Num now) (js_or (timeout_of options) (acquireTimeout (cfg s)))\<rparr>,
       s\<lparr>nextRid := Suc (nextRid s)\<rparr>))"

text \<open>\<open>_scheduleMaintainance\<close>: one timer for \<open>_scheduledMaintain\<close> at a time.\<close>

definition scheduleMaintainance :: "'v pool \<Rightarrow> 'v pool" where
  "scheduleMaintainance s =
     (if \<not> isMaintenanceScheduled s
      then s\<lparr>isMaintenanceScheduled := True, pendingTimeouts := Suc (pendingTimeouts s)\<rparr>
      else s)"

text \<open>
  \<open>_destroyResource\<close>. The closure it hands to the factory is \<open>destroyCallback\<close>; its \<open>called\<close>
  flag makes it act once. A factory that calls back at once runs it inside \<open>_destroyResource\<close>.
\<close>

definition destroyCallback :: "'v pool \<Rightarrow> 'v pool" where
  "destroyCallback s = s\<lparr>destroyingResourceCount := destroyingResourceCount s - 1\<rparr>"

definition destroyResource :: "'v resource \<Rightarrow> 'v pool \<Rightarrow> 'v pool" where
  "destroyResource r s =
     (let s1 = s\<lparr>destroyingResourceCount := destroyingResourceCount s + 1\<rparr>;
          s2 = emit (FactoryDestroy r) (emit (EmitDestroy r) s1)
      in if factoryDestroySync (cfg s) r then destroyCallback s2 else s2)"

text \<open>\<open>_storeResource\<close>\<close>

definition storeResource :: "'v resource \<Rightarrow> 'v pool \<Rightarrow> 'v pool" where
  "storeResource r s =
     (if \<not> isDraining s \<and> validateResource (cfg s) r
      then scheduleMaintainance
             (s\<lparr>freeResources := freeResources s @ [r\<lparr>request := None, idleAt := Num (clock s)\<rparr>]\<rparr>)
      else destroyResource r s)"

text \<open>
  \<open>_nextFreeResource\<close>: shift the free list until a resource validates; those that do not
  are destroyed. The result is the resource, or \<open>None\<close> for the source's \<open>undefined\<close>.
\<close>

function nextFreeResource :: "'v pool \<Rightarrow> 'v resource option \<times> 'v pool" where
  "nextFreeResource s =
     (case freeResources s of
        [] \<Rightarrow> (None, s)
      | r # rs \<Rightarrow>
          if validateResource (cfg s) r then (Some r, s\<lparr>freeResources := rs\<rparr>)
          else nextFreeResource (destroyResource r (s\<lparr>freeResources := rs\<rparr>)))"
  by pat_completeness auto
termination
  by (relation "measure (\<lambda>s. length (freeResources s))")
     (auto simp: destroyResource_def destroyCallback_def emit_def Let_def)

declare nextFreeResource.simps [simp del]

text \<open>
  \<open>_serveRequest(request, errCode, resource)\<close>. Every call site passes either an error code
  or \<open>null\<close> and a resource: the two are one argument here, \<open>Inl\<close> the code. The first
  function is \<open>_serveRequest\<close> up to its test \<open>if (request.done)\<close>.
\<close>

definition serveRequest_body :: "'v request \<Rightarrow> errcode + 'v resource \<Rightarrow> 'v pool \<Rightarrow> 'v pool" where
  "serveRequest_body req x s =
     (case x of
        Inl errCode \<Rightarrow> emit (EmitServeError errCode (rid req)) s
      | Inr res \<Rightarrow>
          emit (EmitServeSuccess (rid req) (rvalue res))
            (s\<lparr>lentResources := lentResources s @ [res\<lparr>request := Some (rid req)\<rparr>]\<rparr>))"

definition reply_of :: "errcode + 'v resource \<Rightarrow> 'v reply" where
  "reply_of x = (case x of Inl errCode \<Rightarrow> Failure errCode | Inr res \<Rightarrow> Success (rvalue res))"

text \<open>\<open>_getResourceIndex\<close>: search from the last element down; \<open>-1\<close> when nothing compares equal.\<close>

fun getResourceIndex_from :: "('v \<Rightarrow> 'v \<Rightarrow> bool) \<Rightarrow> 'v resource list \<Rightarrow> 'v \<Rightarrow> nat \<Rightarrow> int" where
  "getResourceIndex_from cmp rs v 0 = - 1"
| "getResourceIndex_from cmp rs v (Suc i) =
     (if cmp (rvalue (rs ! i)) v then int i else getResourceIndex_from cmp rs v i)"

definition getResourceIndex :: "'v pool \<Rightarrow> 'v resource list \<Rightarrow> 'v \<Rightarrow> int" where
  "getResourceIndex s rs v = getResourceIndex_from (compareResources (cfg s)) rs v (length rs)"

text \<open>\<open>xs.splice(i, 1)\<close>\<close>

definition splice1 :: "'a list \<Rightarrow> nat \<Rightarrow> 'a list" where
  "splice1 xs i = take i xs @ drop (Suc i) xs"

text \<open>\<open>release(resourceValue)\<close>\<close>

definition release :: "'v \<Rightarrow> 'v pool \<Rightarrow> 'v pool" where
  "release v s =
     (let i = getResourceIndex s (lentResources s) v in
      if i \<ge> 0 then
        (let res = lentResources s ! nat i;
             s1 = s\<lparr>lentResources := splice1 (lentResources s) (nat i)\<rparr>
         in storeResource res (emit (EmitRelease res) s1))
      else s)"

text \<open>\<open>destroy(resourceValue)\<close>: the lent list first, then the free list.\<close>

definition destroy :: "'v \<Rightarrow> 'v pool \<Rightarrow> 'v pool" where
  "destroy v s =
     (let i = getResourceIndex s (lentResources s) v in
      if i \<ge> 0 then
        destroyResource (lentResources s ! nat i)
          (s\<lparr>lentResources := splice1 (lentResources s) (nat i)\<rparr>)
      else
        (let j = getResourceIndex s (freeResources s) v in
         if j \<ge> 0 then
           destroyResource (freeResources s ! nat j)
             (s\<lparr>freeResources := splice1 (freeResources s) (nat j)\<rparr>)
         else s))"

text \<open>
  \<open>acquireSync(options)\<close>. Its request is made without \<open>done\<close>, so \<open>_serveRequest\<close> stops at
  \<open>if (request.done)\<close>. The result is the value, or \<open>None\<close> for \<open>undefined\<close>.
\<close>

definition acquireSync :: "acquire_options option \<Rightarrow> 'v pool \<Rightarrow> 'v option \<times> 'v pool" where
  "acquireSync options s =
     (case nextFreeResource s of
        (None, s1) \<Rightarrow> (None, s1)
      | (Some res, s1) \<Rightarrow>
          (let (req, s2) = createRequest options None s1 in
           if isDraining s2
           then (None, serveRequest_body req (Inl POOL_ACQUIRE_DURING_DRAINING) s2)
           else (Some (rvalue res), serveRequest_body req (Inr res) s2)))"

text \<open>
  The functions that follow run \<open>done\<close> callbacks. They take two more arguments: \<open>rc\<close>, which
  runs the calls that a callback makes, and a bound \<open>k\<close> on the turns of a loop; they return
  \<open>None\<close> when a bound is reached. How many turns a loop makes depends on the callbacks: one
  that calls \<open>acquire\<close> adds to the queue that the loop is serving.
\<close>

type_synonym 'v runner = "'v call list \<Rightarrow> 'v pool \<Rightarrow> 'v pool option"

text \<open>\<open>_serveRequest\<close> in full: the callback, if there is one, runs last.\<close>

definition serveRequest ::
  "'v runner \<Rightarrow> 'v request \<Rightarrow> errcode + 'v resource \<Rightarrow> 'v pool \<Rightarrow> 'v pool option"
where
  "serveRequest rc req x s =
     (let s1 = serveRequest_body req x s in
      case done_cb req of
        None \<Rightarrow> Some s1
      | Some cb \<Rightarrow> rc (cb (reply_of x)) (emit (CallDone (rid req) (reply_of x)) s1))"

text \<open>
  \<open>_insertRequestByAcquireTimeout\<close>: the index walks down from the end while the request's
  deadline is smaller than that of the element before it.
\<close>

fun insertIndex :: "jsval \<Rightarrow> 'v request list \<Rightarrow> nat \<Rightarrow> nat" where
  "insertIndex t xs 0 = 0"
| "insertIndex t xs (Suc i) =
     (if js_lt t (acquireTimeoutAt (xs ! i)) then insertIndex t xs i else Suc i)"

definition insertRequestByAcquireTimeout :: "'v request \<Rightarrow> 'v pool \<Rightarrow> 'v pool" where
  "insertRequestByAcquireTimeout req s =
     (if isNaN (acquireTimeoutAt req)
      then s\<lparr>agelessRequests := agelessRequests s @ [req]\<rparr>
      else
        (let i = insertIndex (acquireTimeoutAt req) (agingRequests s) (length (agingRequests s))
         in s\<lparr>agingRequests := take i (agingRequests s) @ [req] @ drop i (agingRequests s)\<rparr>))"

text \<open>\<open>_enqueueRequest\<close>\<close>

definition enqueueRequest :: "'v runner \<Rightarrow> 'v request \<Rightarrow> 'v pool \<Rightarrow> 'v pool option" where
  "enqueueRequest rc req s0 =
     (let s = emit (EmitEnqueueRequest (rid req)) s0 in
      if isDraining s then serveRequest rc req (Inl POOL_ACQUIRE_DURING_DRAINING) s
      else if js_ge (Num (int (length (agelessRequests s) + length (agingRequests s))))
                    (maxRequests (cfg s))
      then serveRequest rc req (Inl POOL_MAX_REQUESTS_LIMIT) s
      else Some (scheduleMaintainance (insertRequestByAcquireTimeout req s)))"

text \<open>\<open>acquire(options, done)\<close>; \<open>acquire(done)\<close> is the call with no options.\<close>

definition acquire ::
  "'v runner \<Rightarrow> acquire_options option \<Rightarrow> ('v reply \<Rightarrow> 'v call list) \<Rightarrow> 'v pool \<Rightarrow> 'v pool option"
where
  "acquire rc options dn s =
     (let (req, s1) = createRequest options (Some dn) s in enqueueRequest rc req s1)"

text \<open>None of the functions so far touches the request queues.\<close>

lemma emit_queues [simp]:
  "agingRequests (emit e s) = agingRequests s"
  "agelessRequests (emit e s) = agelessRequests s"
  by (simp_all add: emit_def)

lemma scheduleMaintainance_queues [simp]:
  "agingRequests (scheduleMaintainance s) = agingRequests s"
  "agelessRequests (scheduleMaintainance s) = agelessRequests s"
  by (simp_all add: scheduleMaintainance_def)

lemma destroyResource_queues [simp]:
  "agingRequests (destroyResource r s) = agingRequests s"
  "agelessRequests (destroyResource r s) = agelessRequests s"
  by (simp_all add: destroyResource_def destroyCallback_def emit_def Let_def)

lemma storeResource_queues [simp]:
  "agingRequests (storeResource r s) = agingRequests s"
  "agelessRequests (storeResource r s) = agelessRequests s"
  by (simp_all add: storeResource_def)

lemma nextFreeResource_queues [simp]:
  "agingRequests (snd (nextFreeResource s)) = agingRequests s"
  "agelessRequests (snd (nextFreeResource s)) = agelessRequests s"
  by (induction s rule: nextFreeResource.induct;
      subst nextFreeResource.simps; simp split: list.splits)+

lemma nextFreeResource_queuesD:
  assumes "nextFreeResource s = (x, s1)"
  shows "agingRequests s1 = agingRequests s" and "agelessRequests s1 = agelessRequests s"
  using nextFreeResource_queues [of s] assms by simp_all

lemma serveRequest_body_queues [simp]:
  "agingRequests (serveRequest_body req x s) = agingRequests s"
  "agelessRequests (serveRequest_body req x s) = agelessRequests s"
  by (simp_all add: serveRequest_body_def split: sum.splits)

lemma release_queues [simp]:
  "agingRequests (release v s) = agingRequests s"
  "agelessRequests (release v s) = agelessRequests s"
  by (simp_all add: release_def Let_def)

lemma destroy_queues [simp]:
  "agingRequests (destroy v s) = agingRequests s"
  "agelessRequests (destroy v s) = agelessRequests s"
  by (simp_all add: destroy_def Let_def)

lemma createRequest_queues [simp]:
  "agingRequests (snd (createRequest options dn s)) = agingRequests s"
  "agelessRequests (snd (createRequest options dn s)) = agelessRequests s"
  by (simp_all add: createRequest_def Let_def)

lemma acquireSync_queues [simp]:
  "agingRequests (snd (acquireSync options s)) = agingRequests s"
  "agelessRequests (snd (acquireSync options s)) = agelessRequests s"
  by (auto simp: acquireSync_def createRequest_def Let_def
           split: prod.splits option.splits dest: nextFreeResource_queuesD)


text \<open>
  \<open>_serveAgingRequests\<close>: \<open>now\<close> is read once, before the loop, and the head of the queue is
  read anew in every turn. In the second branch the source reads the head, calls
  \<open>_nextFreeResource\<close> and then shifts the queue as it is at that moment.
\<close>

primrec serveAging_loop :: "nat \<Rightarrow> 'v runner \<Rightarrow> int \<Rightarrow> 'v pool \<Rightarrow> 'v pool option" where
  "serveAging_loop 0 rc now s = (if agingRequests s = [] then Some s else None)"
| "serveAging_loop (Suc k) rc now s =
     (case agingRequests s of
        [] \<Rightarrow> Some s
      | req # rest \<Rightarrow>
          if js_gt (Num now) (acquireTimeoutAt req)
          then Option.bind
                 (serveRequest rc req (Inl POOL_ACQUIRE_TIMEOUT_ERROR) (s\<lparr>agingRequests := rest\<rparr>))
                 (serveAging_loop k rc now)
          else
            (case nextFreeResource s of
               (None, s1) \<Rightarrow> Some s1
             | (Some res, s1) \<Rightarrow>
                 Option.bind
                   (serveRequest rc req (Inr res) (s1\<lparr>agingRequests := tl (agingRequests s1)\<rparr>))
                   (serveAging_loop k rc now)))"

definition serveAgingRequests :: "nat \<Rightarrow> 'v runner \<Rightarrow> 'v pool \<Rightarrow> 'v pool option" where
  "serveAgingRequests k rc s = serveAging_loop k rc (clock s) s"

text \<open>
  \<open>_serveAgelessRequests\<close>. The queue is not empty when \<open>shift\<close> is reached (lemma
  \<open>nextFreeResource_queues\<close>); the branch for the empty queue is there to make the function
  total.
\<close>

primrec serveAgelessRequests :: "nat \<Rightarrow> 'v runner \<Rightarrow> 'v pool \<Rightarrow> 'v pool option" where
  "serveAgelessRequests 0 rc s = (if agelessRequests s = [] then Some s else None)"
| "serveAgelessRequests (Suc k) rc s =
     (if agelessRequests s = [] then Some s
      else
        (case nextFreeResource s of
           (None, s1) \<Rightarrow> Some s1
         | (Some res, s1) \<Rightarrow>
             (case agelessRequests s1 of
                [] \<Rightarrow> Some s1
              | req # rest \<Rightarrow>
                  Option.bind (serveRequest rc req (Inr res) (s1\<lparr>agelessRequests := rest\<rparr>))
                    (serveAgelessRequests k rc))))"

text \<open>
  \<open>_createResource\<close>. The closure it hands to the factory is \<open>createCallback\<close>, called with
  \<open>None\<close> for \<open>cb(err)\<close> and \<open>Some value\<close> for \<open>cb(null, value)\<close>; its \<open>called\<close> flag makes it act
  once. With a \<open>backoff\<close> function the decrement of the creating count waits for a timer,
  \<open>backoffTimer\<close>.
\<close>

definition backoffTimer :: "'v pool \<Rightarrow> 'v pool" where
  "backoffTimer s = s\<lparr>creatingResourceCount := creatingResourceCount s - 1\<rparr>"

definition createCallback :: "'v option \<Rightarrow> 'v pool \<Rightarrow> 'v pool" where
  "createCallback result s =
     (case result of
        None \<Rightarrow>
          (let s1 = emit EmitCreateError s in
           case backoff (cfg s) of
             Some delay \<Rightarrow> s1\<lparr>pendingBackoffs := Suc (pendingBackoffs s1)\<rparr>
           | None \<Rightarrow> s1\<lparr>creatingResourceCount := creatingResourceCount s1 - 1\<rparr>)
      | Some v \<Rightarrow>
          (let s1 = s\<lparr>creatingResourceCount := creatingResourceCount s - 1\<rparr>;
               now = clock s1;
               s2 = emit (EmitCreateSuccess v) s1
           in storeResource
                \<lparr>resId = nextResId s2, rvalue = v, createdAt = now,
                 expiresAt = js_add (Num now) (expireTimeout (cfg s2)),
                 idleAt = Undefined, request = None\<rparr>
                (s2\<lparr>nextResId := Suc (nextResId s2)\<rparr>)))"

definition createResource :: "'v pool \<Rightarrow> 'v pool" where
  "createResource s =
     (let s1 = emit FactoryCreate
                 (s\<lparr>creatingResourceCount := creatingResourceCount s + 1,
                    createCalls := Suc (createCalls s)\<rparr>)
      in case factoryCreate (cfg s) (createCalls s) of
           Later \<Rightarrow> s1\<lparr>pendingCreates := Suc (pendingCreates s1)\<rparr>
         | CreatedNow v \<Rightarrow> createCallback (Some v) s1
         | FailedNow \<Rightarrow> createCallback None s1)"

text \<open>\<open>_countResources\<close>\<close>

definition countResources :: "'v pool \<Rightarrow> int" where
  "countResources s =
     int (length (freeResources s)) + int (length (lentResources s)) +
     creatingResourceCount s + destroyingResourceCount s"

text \<open>
  \<open>_createResources\<close>: \<open>extraResources\<close> is the value of \<open>extra\<close> when the loop
  \<open>while (extra-- > 0)\<close> is reached, \<open>createLoop\<close> is that loop. \<open>this.maxCreating > 0\<close> is
  false when \<open>maxCreating\<close> is \<open>undefined\<close>.
\<close>

definition extraResources :: "'v pool \<Rightarrow> int" where
  "extraResources s =
     (let count = countResources s;
          extra = int (length (agelessRequests s) + length (agingRequests s));
          extra = (if count < pool_min (cfg s) \<and> extra < pool_min (cfg s)
                   then pool_min (cfg s) else extra);
          extra = (if count + extra > pool_max (cfg s) then pool_max (cfg s) - count else extra);
          extra = extra - creatingResourceCount s
      in case maxCreating (cfg s) of
           Num m \<Rightarrow>
             if m > 0 then
               (let available = m - creatingResourceCount s
                in if extra > available then available else extra)
             else extra
         | Undefined \<Rightarrow> extra
         | NaN \<Rightarrow> extra)"

function createLoop :: "int \<Rightarrow> 'v pool \<Rightarrow> 'v pool" where
  "createLoop extra s = (if extra > 0 then createLoop (extra - 1) (createResource s) else s)"
  by pat_completeness auto
termination
  by (relation "measure (\<lambda>(extra, s). nat extra)") auto

declare createLoop.simps [simp del]

definition createResources :: "'v pool \<Rightarrow> 'v pool" where
  "createResources s = createLoop (extraResources s) s"

text \<open>
  \<open>_destroyDeadResources(key, timeout)\<close>: the first loop walks the free list from its last
  index down and moves the dead resources to \<open>dead\<close>; the second destroys \<open>dead\<close> from its last
  element down. \<open>key\<close> is the field that is read.
\<close>

fun scanDead ::
  "('v resource \<Rightarrow> bool) \<Rightarrow> nat \<Rightarrow> 'v resource list \<times> 'v resource list
     \<Rightarrow> 'v resource list \<times> 'v resource list"
where
  "scanDead isDead 0 (free, dead) = (free, dead)"
| "scanDead isDead (Suc i) (free, dead) =
     (if isDead (free ! i) then scanDead isDead i (splice1 free i, dead @ [free ! i])
      else scanDead isDead i (free, dead))"

definition destroyDeadResources ::
  "('v resource \<Rightarrow> jsval) \<Rightarrow> jsval \<Rightarrow> 'v pool \<Rightarrow> 'v pool"
where
  "destroyDeadResources key tmo s =
     (let now = clock s;
          (free, dead) = scanDead (\<lambda>r. js_gt (Num now) (js_add (key r) tmo))
                           (length (freeResources s)) (freeResources s, [])
      in fold destroyResource (rev dead) (s\<lparr>freeResources := free\<rparr>))"

text \<open>\<open>_destroyIdleResources\<close> and \<open>_destroyExpiredResources\<close>\<close>

definition destroyIdleResources :: "'v pool \<Rightarrow> 'v pool" where
  "destroyIdleResources s =
     (if js_gt (idleTimeout (cfg s)) (Num 0) \<and>
         clock s > lastIdleCheckAt s + idleCheckInterval (cfg s)
      then (destroyDeadResources idleAt (idleTimeout (cfg s)) s)\<lparr>lastIdleCheckAt := clock s\<rparr>
      else s)"

definition destroyExpiredResources :: "'v pool \<Rightarrow> 'v pool" where
  "destroyExpiredResources s =
     (if js_gt (expireTimeout (cfg s)) (Num 0) \<and>
         clock s > lastExpireCheckAt s + expireCheckInterval (cfg s)
      then (destroyDeadResources expiresAt (Num 0) s)\<lparr>lastExpireCheckAt := clock s\<rparr>
      else s)"

text \<open>
  \<open>setMaintenanceInterval\<close>: the old interval timer, if any, is cleared and a new one set;
  the handle is kept as the interval it was set with.
\<close>

definition setMaintenanceInterval :: "int \<Rightarrow> 'v pool \<Rightarrow> 'v pool" where
  "setMaintenanceInterval interval s =
     s\<lparr>maintenanceInterval := interval, maintenanceIntervalID := Some interval\<rparr>"

text \<open>\<open>_maintain\<close>: \<open>isDraining\<close> and \<open>isMaintaining\<close> are tested once, on entry.\<close>

definition maintain :: "nat \<Rightarrow> 'v runner \<Rightarrow> 'v pool \<Rightarrow> 'v pool option" where
  "maintain k rc s =
     (if isDraining s \<or> isMaintaining s then Some s
      else
        (let s1 = s\<lparr>isMaintaining := True\<rparr>;
             s2 = destroyExpiredResources s1;
             s3 = destroyIdleResources s2
         in Option.bind (serveAgingRequests k rc s3) (\<lambda>s4.
            Option.bind (serveAgelessRequests k rc s4) (\<lambda>s5.
            Some ((createResources s5)\<lparr>isMaintaining := False\<rparr>)))))"

text \<open>\<open>_scheduledMaintain\<close>, what the timer of \<open>_scheduleMaintainance\<close> runs.\<close>

definition scheduledMaintain :: "nat \<Rightarrow> 'v runner \<Rightarrow> 'v pool \<Rightarrow> 'v pool option" where
  "scheduledMaintain k rc s =
     Option.bind (maintain k rc s) (\<lambda>t. Some (t\<lparr>isMaintenanceScheduled := False\<rparr>))"

text \<open>
  \<open>_waitDrain(done)\<close>: \<open>tick\<close> queues either the drain's \<open>done\<close> or the next check. \<open>done\<close> is
  known by a number; it runs in a turn of the event loop of its own.
\<close>

definition waitDrain :: "nat option \<Rightarrow> 'v pool \<Rightarrow> 'v pool" where
  "waitDrain dn s =
     (if countResources s = 0 then
        (let s1 = emit EmitDrain s in
         case dn of
           None \<Rightarrow> s1
         | Some k \<Rightarrow> s1\<lparr>pendingTicks := pendingTicks s1 @ [DrainDone k]\<rparr>)
      else s\<lparr>pendingTicks := pendingTicks s @ [WaitDrain dn]\<rparr>)"

text \<open>
  \<open>drain(done)\<close>. Its three loops pop the last element until the list is empty:
  \<open>while ((request = this.agingRequests.pop()))\<close> and the like.
\<close>

primrec drain_agingRequests :: "nat \<Rightarrow> 'v runner \<Rightarrow> 'v pool \<Rightarrow> 'v pool option" where
  "drain_agingRequests 0 rc s = (if agingRequests s = [] then Some s else None)"
| "drain_agingRequests (Suc k) rc s =
     (if agingRequests s = [] then Some s
      else Option.bind
             (serveRequest rc (last (agingRequests s)) (Inl POOL_ACQUIRE_ABORTED_BY_DRAIN)
                (s\<lparr>agingRequests := butlast (agingRequests s)\<rparr>))
             (drain_agingRequests k rc))"

primrec drain_agelessRequests :: "nat \<Rightarrow> 'v runner \<Rightarrow> 'v pool \<Rightarrow> 'v pool option" where
  "drain_agelessRequests 0 rc s = (if agelessRequests s = [] then Some s else None)"
| "drain_agelessRequests (Suc k) rc s =
     (if agelessRequests s = [] then Some s
      else Option.bind
             (serveRequest rc (last (agelessRequests s)) (Inl POOL_ACQUIRE_ABORTED_BY_DRAIN)
                (s\<lparr>agelessRequests := butlast (agelessRequests s)\<rparr>))
             (drain_agelessRequests k rc))"

function drain_freeResources :: "'v pool \<Rightarrow> 'v pool" where
  "drain_freeResources s =
     (if freeResources s = [] then s
      else drain_freeResources
             (destroyResource (last (freeResources s))
                (s\<lparr>freeResources := butlast (freeResources s)\<rparr>)))"
  by pat_completeness auto
termination
  by (relation "measure (\<lambda>s. length (freeResources s))")
     (auto simp: destroyResource_def destroyCallback_def emit_def Let_def)

declare drain_freeResources.simps [simp del]


definition drain :: "nat \<Rightarrow> 'v runner \<Rightarrow> nat option \<Rightarrow> 'v pool \<Rightarrow> 'v pool option" where
  "drain k rc dn s =
     (if \<not> isDraining s
      then Option.bind
             (drain_agingRequests k rc (s\<lparr>isDraining := True, maintenanceIntervalID := None\<rparr>))
             (\<lambda>s1. Option.bind (drain_agelessRequests k rc s1)
             (\<lambda>s2. Some (waitDrain dn (drain_freeResources s2))))
      else Some (waitDrain dn s))"

text \<open>
  One call made by a callback, and all of them in their order. \<open>run_calls n\<close> runs callbacks
  inside callbacks to the depth \<open>n\<close>, and its loops for \<open>n\<close> turns.
\<close>

definition run_call :: "nat \<Rightarrow> 'v runner \<Rightarrow> 'v call \<Rightarrow> 'v pool \<Rightarrow> 'v pool option" where
  "run_call k rc c s =
     (case c of
        CallAcquire options dn \<Rightarrow> acquire rc options dn s
      | CallAcquireSync options \<Rightarrow> Some (snd (acquireSync options s))
      | CallRelease v \<Rightarrow> Some (release v s)
      | CallDestroy v \<Rightarrow> Some (destroy v s)
      | CallDrain dn \<Rightarrow> drain k rc dn s
      | CallSetMaintenanceInterval interval \<Rightarrow> Some (setMaintenanceInterval interval s))"

primrec run_all :: "('a \<Rightarrow> 's \<Rightarrow> 's option) \<Rightarrow> 'a list \<Rightarrow> 's \<Rightarrow> 's option" where
  "run_all f [] s = Some s"
| "run_all f (c # cs) s = Option.bind (f c s) (run_all f cs)"

primrec run_calls :: "nat \<Rightarrow> 'v runner" where
  "run_calls 0 = (\<lambda>cs s. if cs = [] then Some s else None)"
| "run_calls (Suc n) = run_all (run_call n (run_calls n))"

text \<open>
  The constructor \<open>Pool(options)\<close>. Of the factory, \<open>create\<close> is given by what it does at its
  n-th call and \<open>destroy\<close> by whether it calls back at once; \<open>validate\<close> and \<open>compare\<close> have the
  defaults of the source (\<open>!!resource\<close>, which holds of every resource object, and \<open>===\<close>).
  \<open>now\<close> is the clock at construction. The constructor ends with \<open>_maintain()\<close>; the queues are
  empty there, so that no callback runs and no bound is reached (lemma \<open>newPool_maintain\<close>).
\<close>

record 'v pool_options =
  opt_create :: "nat \<Rightarrow> 'v outcome"
  opt_destroy :: "'v resource \<Rightarrow> bool"
  opt_validate :: "('v resource \<Rightarrow> bool) option"
  opt_compare :: "('v \<Rightarrow> 'v \<Rightarrow> bool) option"
  opt_backoff :: "int option"
  opt_min :: jsval
  opt_max :: jsval
  opt_maxCreating :: jsval
  opt_maxRequests :: jsval
  opt_acquireTimeout :: jsval
  opt_idleTimeout :: jsval
  opt_idleCheckInterval :: jsval
  opt_expireTimeout :: jsval
  opt_expireCheckInterval :: jsval
  opt_maintenanceInterval :: jsval
  opt_maintenanceTimeout :: jsval

definition config_of :: "'v pool_options \<Rightarrow> 'v config" where
  "config_of options =
     \<lparr>validateResource = (case opt_validate options of None \<Rightarrow> (\<lambda>r. True) | Some f \<Rightarrow> f),
      compareResources = (case opt_compare options of None \<Rightarrow> (\<lambda>a b. a = b) | Some f \<Rightarrow> f),
      factoryCreate = opt_create options,
      factoryDestroySync = opt_destroy options,
      backoff = opt_backoff options,
      pool_min = or_default (opt_min options) 0,
      pool_max = or_default (opt_max options) 1024,
      maxCreating = opt_maxCreating options,
      maxRequests = opt_maxRequests options,
      acquireTimeout = opt_acquireTimeout options,
      idleTimeout = opt_idleTimeout options,
      idleCheckInterval = or_default (opt_idleCheckInterval options) 1000,
      expireTimeout = opt_expireTimeout options,
      expireCheckInterval = or_default (opt_expireCheckInterval options) 1000,
      maintenanceTimeout = or_default (opt_maintenanceTimeout options) 50\<rparr>"


definition newPool :: "'v pool_options \<Rightarrow> int \<Rightarrow> 'v pool" where
  "newPool options now =
     (let c = config_of options;
          interval = or_default (opt_maintenanceInterval options)
                       (min (idleCheckInterval c) (expireCheckInterval c));
          s = \<lparr>cfg = c, maintenanceInterval = interval,
               agingRequests = [], agelessRequests = [], freeResources = [], lentResources = [],
               creatingResourceCount = 0, destroyingResourceCount = 0,
               lastIdleCheckAt = 0, lastExpireCheckAt = 0,
               isDraining = False, isMaintaining = False, isMaintenanceScheduled = False,
               maintenanceIntervalID = None,
               clock = now, nextRid = 0, nextResId = 0, createCalls = 0,
               pendingCreates = 0, pendingBackoffs = 0, pendingTimeouts = 0, pendingTicks = [],
               trace = []\<rparr>
      in the (maintain 0 (run_calls 0) (setMaintenanceInterval interval s)))"

section \<open>The pool in the event loop\<close>

text \<open>
  Everything that can enter the pool's code from outside: the calls of the API, the timers
  the pool has set, the factory's callbacks that are outstanding, and the passing of time.
  A step is refused (\<open>None\<close>) when the timer or callback it stands for does not exist, and
  when the bound \<open>n\<close> on its callbacks and loops is reached.
\<close>

datatype 'v event =
    Acquire "acquire_options option" "'v reply \<Rightarrow> 'v call list"
  | AcquireSync "acquire_options option"
  | Release 'v
  | Destroy 'v
  | Drain "nat option"
  | SetMaintenanceInterval int
  | IntervalFires
  | TimeoutFires
  | CreateDone "'v option"
  | BackoffFires
  | DestroyDone
  | Tick
  | ClockAdvance int

fun step :: "nat \<Rightarrow> 'v event \<Rightarrow> 'v pool \<Rightarrow> 'v pool option" where
  "step n (Acquire options dn) s = acquire (run_calls n) options dn s"
| "step n (AcquireSync options) s = Some (snd (acquireSync options s))"
| "step n (Release v) s = Some (release v s)"
| "step n (Destroy v) s = Some (destroy v s)"
| "step n (Drain dn) s = drain n (run_calls n) dn s"
| "step n (SetMaintenanceInterval interval) s = Some (setMaintenanceInterval interval s)"
| "step n IntervalFires s =
     (if maintenanceIntervalID s \<noteq> None then maintain n (run_calls n) s else None)"
| "step n TimeoutFires s =
     (if pendingTimeouts s > 0
      then scheduledMaintain n (run_calls n) (s\<lparr>pendingTimeouts := pendingTimeouts s - 1\<rparr>)
      else None)"
| "step n (CreateDone result) s =
     (if pendingCreates s > 0
      then Some (createCallback result (s\<lparr>pendingCreates := pendingCreates s - 1\<rparr>))
      else None)"
| "step n BackoffFires s =
     (if pendingBackoffs s > 0
      then Some (backoffTimer (s\<lparr>pendingBackoffs := pendingBackoffs s - 1\<rparr>))
      else None)"
| "step n DestroyDone s =
     (if destroyingResourceCount s > 0 then Some (destroyCallback s) else None)"
| "step n Tick s =
     (case pendingTicks s of
        [] \<Rightarrow> None
      | DrainDone k # ts \<Rightarrow> Some (emit (CallDrainDone k) (s\<lparr>pendingTicks := ts\<rparr>))
      | WaitDrain dn # ts \<Rightarrow> Some (waitDrain dn (s\<lparr>pendingTicks := ts\<rparr>)))"
| "step n (ClockAdvance t) s = (if t \<ge> clock s then Some (s\<lparr>clock := t\<rparr>) else None)"

definition run :: "nat \<Rightarrow> 'v event list \<Rightarrow> 'v pool \<Rightarrow> 'v pool option" where
  "run n evs s = run_all (step n) evs s"

section \<open>A pool to run the model on\<close>

text \<open>
  The pool of the repository's tests, \<open>createPool({}, -1)\<close>: no option is set, \<open>create\<close> calls
  back at once with a new value (here the number of the call), \<open>destroy\<close> calls back at once.
\<close>

definition test_options :: "nat pool_options" where
  "test_options =
     \<lparr>opt_create = (\<lambda>n. CreatedNow n), opt_destroy = (\<lambda>_. True), opt_validate = None,
      opt_compare = None, opt_backoff = None, opt_min = Undefined, opt_max = Undefined,
      opt_maxCreating = Undefined, opt_maxRequests = Undefined, opt_acquireTimeout = Undefined,
      opt_idleTimeout = Undefined, opt_idleCheckInterval = Undefined,
      opt_expireTimeout = Undefined, opt_expireCheckInterval = Undefined,
      opt_maintenanceInterval = Undefined, opt_maintenanceTimeout = Undefined\<rparr>"

lemmas pool_defs =
  emit_def timeout_of_def createRequest_def scheduleMaintainance_def destroyCallback_def
  destroyResource_def storeResource_def serveRequest_body_def reply_of_def getResourceIndex_def
  splice1_def release_def destroy_def acquireSync_def run_call_def serveRequest_def
  insertRequestByAcquireTimeout_def enqueueRequest_def acquire_def serveAgingRequests_def
  backoffTimer_def createCallback_def createResource_def countResources_def extraResources_def
  createResources_def destroyDeadResources_def destroyIdleResources_def
  destroyExpiredResources_def setMaintenanceInterval_def maintain_def scheduledMaintain_def
  waitDrain_def drain_def config_of_def newPool_def run_def js_or_def js_gt_def Let_def

lemmas pool_loops =
  nextFreeResource.simps createLoop.simps drain_freeResources.simps

text \<open>Evaluation goes from the outside in.\<close>

lemma bind_weak_cong: "x = y \<Longrightarrow> Option.bind x f = Option.bind y f"
  by simp

lemmas pool_cong = let_weak_cong old.prod.case_cong_weak bind_weak_cong

section \<open>Reasoning about callbacks\<close>

text \<open>
  \<open>_serveRequest\<close> up to the moment the callback's own code runs: the state in which the calls
  of the callback are made.
\<close>

definition served :: "'v request \<Rightarrow> errcode + 'v resource \<Rightarrow> 'v pool \<Rightarrow> 'v pool" where
  "served req x s =
     (case done_cb req of
        None \<Rightarrow> serveRequest_body req x s
      | Some cb \<Rightarrow> emit (CallDone (rid req) (reply_of x)) (serveRequest_body req x s))"

lemma serveRequest_served:
  "serveRequest rc req x s =
     (case done_cb req of
        None \<Rightarrow> Some (served req x s)
      | Some cb \<Rightarrow> rc (cb (reply_of x)) (served req x s))"
  by (simp add: serveRequest_def served_def Let_def split: option.splits)

text \<open>
  \<open>acquire\<close> in two steps: the state in which a refused request's callback runs, and the
  state an admitted request leaves. \<open>queue_full\<close> is the test against \<open>maxRequests\<close>.
\<close>

definition queue_full :: "'v pool \<Rightarrow> bool" where
  "queue_full s \<longleftrightarrow>
     js_ge (Num (int (length (agelessRequests s) + length (agingRequests s))))
       (maxRequests (cfg s))"

definition rejected ::
  "acquire_options option \<Rightarrow> ('v reply \<Rightarrow> 'v call list) \<Rightarrow> errcode \<Rightarrow> 'v pool \<Rightarrow> 'v pool"
where
  "rejected options dn e s =
     (let (req, s1) = createRequest options (Some dn) s
      in served req (Inl e) (emit (EmitEnqueueRequest (rid req)) s1))"

definition enqueued ::
  "acquire_options option \<Rightarrow> ('v reply \<Rightarrow> 'v call list) \<Rightarrow> 'v pool \<Rightarrow> 'v pool"
where
  "enqueued options dn s =
     (let (req, s1) = createRequest options (Some dn) s
      in scheduleMaintainance
           (insertRequestByAcquireTimeout req (emit (EmitEnqueueRequest (rid req)) s1)))"

lemma acquire_unfold:
  "acquire rc options dn s =
     (if isDraining s
      then rc (dn (Failure POOL_ACQUIRE_DURING_DRAINING))
             (rejected options dn POOL_ACQUIRE_DURING_DRAINING s)
      else if queue_full s
      then rc (dn (Failure POOL_MAX_REQUESTS_LIMIT))
             (rejected options dn POOL_MAX_REQUESTS_LIMIT s)
      else Some (enqueued options dn s))"
  by (simp add: acquire_def enqueueRequest_def createRequest_def serveRequest_served
        rejected_def enqueued_def queue_full_def reply_of_def emit_def Let_def)

text \<open>A property that the calls of callbacks keep.\<close>

definition preserves :: "('v pool \<Rightarrow> bool) \<Rightarrow> 'v runner \<Rightarrow> bool" where
  "preserves P rc \<longleftrightarrow> (\<forall>cs s t. P s \<longrightarrow> rc cs s = Some t \<longrightarrow> P t)"

lemma preservesD: "preserves P rc \<Longrightarrow> P s \<Longrightarrow> rc cs s = Some t \<Longrightarrow> P t"
  by (auto simp: preserves_def)

lemma serveRequest_rule:
  assumes "preserves P rc" and "P (served req x s)" and "serveRequest rc req x s = Some t"
  shows "P t"
  using assms by (auto simp: serveRequest_served dest: preservesD split: option.splits)

lemma bind_SomeD: "Option.bind x f = Some t \<Longrightarrow> \<exists>y. x = Some y \<and> f y = Some t"
  by (cases x) simp_all

text \<open>Rules for the loops: what every turn of a loop keeps, the loop keeps.\<close>

lemma serveAging_loop_rule:
  assumes rc: "preserves P rc"
    and r1: "\<And>s req rest. P s \<Longrightarrow> agingRequests s = req # rest \<Longrightarrow>
           js_gt (Num now) (acquireTimeoutAt req) \<Longrightarrow>
           P (served req (Inl POOL_ACQUIRE_TIMEOUT_ERROR) (s\<lparr>agingRequests := rest\<rparr>))"
    and r2: "\<And>s req rest res s1. P s \<Longrightarrow> agingRequests s = req # rest \<Longrightarrow>
           \<not> js_gt (Num now) (acquireTimeoutAt req) \<Longrightarrow>
           nextFreeResource s = (Some res, s1) \<Longrightarrow>
           P (served req (Inr res) (s1\<lparr>agingRequests := rest\<rparr>))"
    and r3: "\<And>s req rest s1. P s \<Longrightarrow> agingRequests s = req # rest \<Longrightarrow>
           \<not> js_gt (Num now) (acquireTimeoutAt req) \<Longrightarrow>
           nextFreeResource s = (None, s1) \<Longrightarrow> P s1"
  shows "P s \<Longrightarrow> serveAging_loop k rc now s = Some t \<Longrightarrow> P t"
proof (induction k arbitrary: s)
  case 0
  then show ?case by (simp split: if_splits)
next
  case (Suc k)
  show ?case
  proof (cases "agingRequests s")
    case Nil
    with Suc.prems show ?thesis by simp
  next
    case (Cons req rest)
    show ?thesis
    proof (cases "js_gt (Num now) (acquireTimeoutAt req)")
      case True
      from Suc.prems(2) Cons True obtain u where
        u: "serveRequest rc req (Inl POOL_ACQUIRE_TIMEOUT_ERROR) (s\<lparr>agingRequests := rest\<rparr>) = Some u"
        and t: "serveAging_loop k rc now u = Some t"
        by (auto dest: bind_SomeD)
      have "P u" using rc r1 [OF Suc.prems(1) Cons True] u by (rule serveRequest_rule)
      then show ?thesis using t by (rule Suc.IH)
    next
      case False
      obtain x s1 where n: "nextFreeResource s = (x, s1)" by (cases "nextFreeResource s")
      then have q: "tl (agingRequests s1) = rest"
        using nextFreeResource_queuesD(1) [OF n] Cons by simp
      show ?thesis
      proof (cases x)
        case None
        with Suc.prems(2) Cons False n have "t = s1" by simp
        moreover have "P s1" using r3 [OF Suc.prems(1) Cons False] n None by simp
        ultimately show ?thesis by simp
      next
        case (Some res)
        from Suc.prems(2) Cons False n Some q obtain u where
          u: "serveRequest rc req (Inr res) (s1\<lparr>agingRequests := rest\<rparr>) = Some u"
          and t: "serveAging_loop k rc now u = Some t"
          by (auto dest: bind_SomeD)
        have "P (served req (Inr res) (s1\<lparr>agingRequests := rest\<rparr>))"
          using r2 [OF Suc.prems(1) Cons False] n Some by simp
        with rc have "P u" using u by (rule serveRequest_rule)
        then show ?thesis using t by (rule Suc.IH)
      qed
    qed
  qed
qed

lemma serveAgelessRequests_rule:
  assumes rc: "preserves P rc"
    and r2: "\<And>s req rest res s1. P s \<Longrightarrow> agelessRequests s = req # rest \<Longrightarrow>
           nextFreeResource s = (Some res, s1) \<Longrightarrow>
           P (served req (Inr res) (s1\<lparr>agelessRequests := rest\<rparr>))"
    and r3: "\<And>s req rest s1. P s \<Longrightarrow> agelessRequests s = req # rest \<Longrightarrow>
           nextFreeResource s = (None, s1) \<Longrightarrow> P s1"
  shows "P s \<Longrightarrow> serveAgelessRequests k rc s = Some t \<Longrightarrow> P t"
proof (induction k arbitrary: s)
  case 0
  then show ?case by (simp split: if_splits)
next
  case (Suc k)
  show ?case
  proof (cases "agelessRequests s")
    case Nil
    with Suc.prems show ?thesis by simp
  next
    case (Cons req rest)
    obtain x s1 where n: "nextFreeResource s = (x, s1)" by (cases "nextFreeResource s")
    then have q: "agelessRequests s1 = req # rest"
      using nextFreeResource_queuesD(2) [OF n] Cons by simp
    show ?thesis
    proof (cases x)
      case None
      with Suc.prems(2) Cons n have "t = s1" by simp
      moreover have "P s1" using r3 [OF Suc.prems(1) Cons] n None by simp
      ultimately show ?thesis by simp
    next
      case (Some res)
      from Suc.prems(2) Cons n Some q obtain u where
        u: "serveRequest rc req (Inr res) (s1\<lparr>agelessRequests := rest\<rparr>) = Some u"
        and t: "serveAgelessRequests k rc u = Some t"
        by (auto dest: bind_SomeD)
      have "P (served req (Inr res) (s1\<lparr>agelessRequests := rest\<rparr>))"
        using r2 [OF Suc.prems(1) Cons] n Some by simp
      with rc have "P u" using u by (rule serveRequest_rule)
      then show ?thesis using t by (rule Suc.IH)
    qed
  qed
qed

lemma drain_agingRequests_rule:
  assumes rc: "preserves P rc"
    and r: "\<And>s. P s \<Longrightarrow> agingRequests s \<noteq> [] \<Longrightarrow>
           P (served (last (agingRequests s)) (Inl POOL_ACQUIRE_ABORTED_BY_DRAIN)
                (s\<lparr>agingRequests := butlast (agingRequests s)\<rparr>))"
  shows "P s \<Longrightarrow> drain_agingRequests k rc s = Some t \<Longrightarrow> P t \<and> agingRequests t = []"
proof (induction k arbitrary: s)
  case 0
  then show ?case by (simp split: if_splits)
next
  case (Suc k)
  show ?case
  proof (cases "agingRequests s = []")
    case True
    with Suc.prems show ?thesis by simp
  next
    case False
    from Suc.prems(2) False obtain u where
      u: "serveRequest rc (last (agingRequests s)) (Inl POOL_ACQUIRE_ABORTED_BY_DRAIN)
            (s\<lparr>agingRequests := butlast (agingRequests s)\<rparr>) = Some u"
      and t: "drain_agingRequests k rc u = Some t"
      by (auto dest: bind_SomeD)
    have "P u" using rc r [OF Suc.prems(1) False] u by (rule serveRequest_rule)
    then show ?thesis using t by (rule Suc.IH)
  qed
qed

lemma drain_agelessRequests_rule:
  assumes rc: "preserves P rc"
    and r: "\<And>s. P s \<Longrightarrow> agelessRequests s \<noteq> [] \<Longrightarrow>
           P (served (last (agelessRequests s)) (Inl POOL_ACQUIRE_ABORTED_BY_DRAIN)
                (s\<lparr>agelessRequests := butlast (agelessRequests s)\<rparr>))"
  shows "P s \<Longrightarrow> drain_agelessRequests k rc s = Some t \<Longrightarrow> P t \<and> agelessRequests t = []"
proof (induction k arbitrary: s)
  case 0
  then show ?case by (simp split: if_splits)
next
  case (Suc k)
  show ?case
  proof (cases "agelessRequests s = []")
    case True
    with Suc.prems show ?thesis by simp
  next
    case False
    from Suc.prems(2) False obtain u where
      u: "serveRequest rc (last (agelessRequests s)) (Inl POOL_ACQUIRE_ABORTED_BY_DRAIN)
            (s\<lparr>agelessRequests := butlast (agelessRequests s)\<rparr>) = Some u"
      and t: "drain_agelessRequests k rc u = Some t"
      by (auto dest: bind_SomeD)
    have "P u" using rc r [OF Suc.prems(1) False] u by (rule serveRequest_rule)
    then show ?thesis using t by (rule Suc.IH)
  qed
qed

lemma drain_freeResources_rule:
  assumes "P s"
    and "\<And>s. P s \<Longrightarrow> freeResources s \<noteq> [] \<Longrightarrow>
           P (destroyResource (last (freeResources s))
                (s\<lparr>freeResources := butlast (freeResources s)\<rparr>))"
  shows "P (drain_freeResources s) \<and> freeResources (drain_freeResources s) = []"
  using assms(1)
proof (induction s rule: drain_freeResources.induct)
  case (1 s)
  show ?case
  proof (cases "freeResources s = []")
    case True
    with 1 show ?thesis by (subst (1 2) drain_freeResources.simps) simp
  next
    case False
    have "P (destroyResource (last (freeResources s))
                (s\<lparr>freeResources := butlast (freeResources s)\<rparr>))"
      using assms(2) [OF "1.prems" False] .
    from "1.IH" [OF False this] False show ?thesis
      by (subst (1 2) drain_freeResources.simps) simp
  qed
qed

lemma createLoop_rule:
  assumes "P s" and "\<And>s. P s \<Longrightarrow> P (createResource s)"
  shows "P (createLoop extra s)"
  using assms(1)
proof (induction extra s rule: createLoop.induct)
  case (1 extra s)
  show ?case
  proof (cases "extra > 0")
    case True
    from "1.IH" [OF True assms(2) [OF "1.prems"]] True show ?thesis
      by (subst createLoop.simps) simp
  next
    case False
    with "1.prems" show ?thesis by (subst createLoop.simps) simp
  qed
qed

lemma nextFreeResource_rule:
  assumes "P s"
    and "\<And>s r rs. P s \<Longrightarrow> freeResources s = r # rs \<Longrightarrow> \<not> validateResource (cfg s) r \<Longrightarrow>
           P (destroyResource r (s\<lparr>freeResources := rs\<rparr>))"
  shows "case nextFreeResource s of
           (None, s1) \<Rightarrow> P s1 \<and> freeResources s1 = []
         | (Some r, s1) \<Rightarrow>
             \<exists>s0. P s0 \<and> freeResources s0 = r # freeResources s1 \<and>
                  s1 = s0\<lparr>freeResources := freeResources s1\<rparr> \<and> validateResource (cfg s0) r"
  using assms(1)
proof (induction s rule: nextFreeResource.induct)
  case (1 s)
  show ?case
  proof (cases "freeResources s")
    case Nil
    with 1 show ?thesis by (subst nextFreeResource.simps) simp
  next
    case (Cons r rs)
    show ?thesis
    proof (cases "validateResource (cfg s) r")
      case True
      have "P s \<and> freeResources s = r # rs \<and> s\<lparr>freeResources := rs\<rparr> = s\<lparr>freeResources := rs\<rparr>
            \<and> validateResource (cfg s) r"
        using True Cons "1.prems" by simp
      then show ?thesis using True Cons
        by (subst nextFreeResource.simps) (auto intro!: exI [of _ s])
    next
      case False
      from "1.IH" [OF Cons False assms(2) [OF "1.prems" Cons False]] Cons False show ?thesis
        by (subst nextFreeResource.simps) simp
    qed
  qed
qed

lemma run_all_rule:
  assumes "\<And>c s t. P s \<Longrightarrow> f c s = Some t \<Longrightarrow> P t"
  shows "P s \<Longrightarrow> run_all f cs s = Some t \<Longrightarrow> P t"
proof (induction cs arbitrary: s)
  case Nil
  then show ?case by simp
next
  case (Cons c cs)
  from Cons.prems(2) obtain u where u: "f c s = Some u" and t: "run_all f cs u = Some t"
    by (auto dest: bind_SomeD)
  have "P u" using Cons.prems(1) u by (rule assms)
  then show ?case using t by (rule Cons.IH)
qed

text \<open>
  What the pool does between two runs of callback code, one clause for each place: the calls
  of the interface, a first \<open>drain\<close>, and the timers and callbacks of the event loop.
\<close>

definition stable_calls :: "('v pool \<Rightarrow> bool) \<Rightarrow> bool" where
  "stable_calls P \<longleftrightarrow>
     (\<forall>s options dn. P s \<and> isDraining s \<longrightarrow>
        P (rejected options dn POOL_ACQUIRE_DURING_DRAINING s)) \<and>
     (\<forall>s options dn. P s \<and> \<not> isDraining s \<and> queue_full s \<longrightarrow>
        P (rejected options dn POOL_MAX_REQUESTS_LIMIT s)) \<and>
     (\<forall>s options dn. P s \<and> \<not> isDraining s \<and> \<not> queue_full s \<longrightarrow> P (enqueued options dn s)) \<and>
     (\<forall>s options. P s \<longrightarrow> P (snd (acquireSync options s))) \<and>
     (\<forall>s v. P s \<longrightarrow> P (release v s)) \<and>
     (\<forall>s v. P s \<longrightarrow> P (destroy v s)) \<and>
     (\<forall>s interval. P s \<longrightarrow> P (setMaintenanceInterval interval s)) \<and>
     (\<forall>s dn. P s \<and> isDraining s \<longrightarrow> P (waitDrain dn s))"

definition stable_drain :: "('v pool \<Rightarrow> bool) \<Rightarrow> bool" where
  "stable_drain P \<longleftrightarrow>
     (\<forall>s. P s \<and> \<not> isDraining s \<longrightarrow> P (s\<lparr>isDraining := True, maintenanceIntervalID := None\<rparr>)) \<and>
     (\<forall>s. P s \<and> agingRequests s \<noteq> [] \<longrightarrow>
        P (served (last (agingRequests s)) (Inl POOL_ACQUIRE_ABORTED_BY_DRAIN)
             (s\<lparr>agingRequests := butlast (agingRequests s)\<rparr>))) \<and>
     (\<forall>s. P s \<and> agelessRequests s \<noteq> [] \<longrightarrow>
        P (served (last (agelessRequests s)) (Inl POOL_ACQUIRE_ABORTED_BY_DRAIN)
             (s\<lparr>agelessRequests := butlast (agelessRequests s)\<rparr>))) \<and>
     (\<forall>s dn. P s \<longrightarrow> P (waitDrain dn (drain_freeResources s)))"

definition first_drain :: "('v pool \<Rightarrow> bool) \<Rightarrow> bool" where
  "first_drain P \<longleftrightarrow>
     (\<forall>k m dn s t. preserves P (run_calls m) \<longrightarrow> P s \<longrightarrow> \<not> isDraining s \<longrightarrow>
        drain k (run_calls m) dn s = Some t \<longrightarrow> P t)"

definition stable_timers :: "('v pool \<Rightarrow> bool) \<Rightarrow> bool" where
  "stable_timers P \<longleftrightarrow>
     (\<forall>s. P s \<and> \<not> isDraining s \<and> \<not> isMaintaining s \<longrightarrow>
        P (destroyIdleResources (destroyExpiredResources (s\<lparr>isMaintaining := True\<rparr>)))) \<and>
     (\<forall>s now req rest. P s \<and> agingRequests s = req # rest \<and>
        js_gt (Num now) (acquireTimeoutAt req) \<longrightarrow>
        P (served req (Inl POOL_ACQUIRE_TIMEOUT_ERROR) (s\<lparr>agingRequests := rest\<rparr>))) \<and>
     (\<forall>s. P s \<and> fst (nextFreeResource s) = None \<longrightarrow> P (snd (nextFreeResource s))) \<and>
     (\<forall>s req rest res. P s \<and> agingRequests s = req # rest \<and>
        fst (nextFreeResource s) = Some res \<longrightarrow>
        P (served req (Inr res) ((snd (nextFreeResource s))\<lparr>agingRequests := rest\<rparr>))) \<and>
     (\<forall>s req rest res. P s \<and> agelessRequests s = req # rest \<and>
        fst (nextFreeResource s) = Some res \<longrightarrow>
        P (served req (Inr res) ((snd (nextFreeResource s))\<lparr>agelessRequests := rest\<rparr>))) \<and>
     (\<forall>s. P s \<longrightarrow> P ((createResources s)\<lparr>isMaintaining := False\<rparr>)) \<and>
     (\<forall>s. P s \<longrightarrow> P (s\<lparr>isMaintenanceScheduled := False\<rparr>)) \<and>
     (\<forall>s. P s \<and> pendingTimeouts s > 0 \<longrightarrow> P (s\<lparr>pendingTimeouts := pendingTimeouts s - 1\<rparr>)) \<and>
     (\<forall>s result. P s \<and> pendingCreates s > 0 \<longrightarrow>
        P (createCallback result (s\<lparr>pendingCreates := pendingCreates s - 1\<rparr>))) \<and>
     (\<forall>s. P s \<and> pendingBackoffs s > 0 \<longrightarrow>
        P (backoffTimer (s\<lparr>pendingBackoffs := pendingBackoffs s - 1\<rparr>))) \<and>
     (\<forall>s. P s \<and> destroyingResourceCount s > 0 \<longrightarrow> P (destroyCallback s)) \<and>
     (\<forall>s k ts. P s \<and> pendingTicks s = DrainDone k # ts \<longrightarrow>
        P (emit (CallDrainDone k) (s\<lparr>pendingTicks := ts\<rparr>))) \<and>
     (\<forall>s dn ts. P s \<and> pendingTicks s = WaitDrain dn # ts \<longrightarrow>
        P (waitDrain dn (s\<lparr>pendingTicks := ts\<rparr>))) \<and>
     (\<forall>s t. P s \<and> t \<ge> clock s \<longrightarrow> P (s\<lparr>clock := t\<rparr>))"

lemma stable_callsD:
  assumes "stable_calls P" and "P s"
  shows "isDraining s \<Longrightarrow> P (rejected options dn POOL_ACQUIRE_DURING_DRAINING s)"
    and "\<not> isDraining s \<Longrightarrow> queue_full s \<Longrightarrow> P (rejected options dn POOL_MAX_REQUESTS_LIMIT s)"
    and "\<not> isDraining s \<Longrightarrow> \<not> queue_full s \<Longrightarrow> P (enqueued options dn s)"
    and "P (snd (acquireSync options s))"
    and "P (release v s)"
    and "P (destroy v s)"
    and "P (setMaintenanceInterval interval s)"
    and "isDraining s \<Longrightarrow> P (waitDrain k s)"
proof -
  have "\<forall>s options dn. P s \<and> isDraining s \<longrightarrow>
        P (rejected options dn POOL_ACQUIRE_DURING_DRAINING s)"
    using assms(1) unfolding stable_calls_def by (elim conjE)
  then show "isDraining s \<Longrightarrow> P (rejected options dn POOL_ACQUIRE_DURING_DRAINING s)"
    using assms(2) by blast
  have "\<forall>s options dn. P s \<and> \<not> isDraining s \<and> queue_full s \<longrightarrow>
        P (rejected options dn POOL_MAX_REQUESTS_LIMIT s)"
    using assms(1) unfolding stable_calls_def by (elim conjE)
  then show "\<not> isDraining s \<Longrightarrow> queue_full s \<Longrightarrow> P (rejected options dn POOL_MAX_REQUESTS_LIMIT s)"
    using assms(2) by blast
  have "\<forall>s options dn. P s \<and> \<not> isDraining s \<and> \<not> queue_full s \<longrightarrow> P (enqueued options dn s)"
    using assms(1) unfolding stable_calls_def by (elim conjE)
  then show "\<not> isDraining s \<Longrightarrow> \<not> queue_full s \<Longrightarrow> P (enqueued options dn s)"
    using assms(2) by blast
  have "\<forall>s options. P s \<longrightarrow> P (snd (acquireSync options s))"
    using assms(1) unfolding stable_calls_def by (elim conjE)
  then show "P (snd (acquireSync options s))"
    using assms(2) by blast
  have "\<forall>s v. P s \<longrightarrow> P (release v s)"
    using assms(1) unfolding stable_calls_def by (elim conjE)
  then show "P (release v s)"
    using assms(2) by blast
  have "\<forall>s v. P s \<longrightarrow> P (destroy v s)"
    using assms(1) unfolding stable_calls_def by (elim conjE)
  then show "P (destroy v s)"
    using assms(2) by blast
  have "\<forall>s interval. P s \<longrightarrow> P (setMaintenanceInterval interval s)"
    using assms(1) unfolding stable_calls_def by (elim conjE)
  then show "P (setMaintenanceInterval interval s)"
    using assms(2) by blast
  have "\<forall>s dn. P s \<and> isDraining s \<longrightarrow> P (waitDrain dn s)"
    using assms(1) unfolding stable_calls_def by (elim conjE)
  then show "isDraining s \<Longrightarrow> P (waitDrain k s)"
    using assms(2) by blast
qed

lemma stable_drainD:
  assumes "stable_drain P" and "P s"
  shows "\<not> isDraining s \<Longrightarrow> P (s\<lparr>isDraining := True, maintenanceIntervalID := None\<rparr>)"
    and "agingRequests s \<noteq> [] \<Longrightarrow>
         P (served (last (agingRequests s)) (Inl POOL_ACQUIRE_ABORTED_BY_DRAIN)
              (s\<lparr>agingRequests := butlast (agingRequests s)\<rparr>))"
    and "agelessRequests s \<noteq> [] \<Longrightarrow>
         P (served (last (agelessRequests s)) (Inl POOL_ACQUIRE_ABORTED_BY_DRAIN)
              (s\<lparr>agelessRequests := butlast (agelessRequests s)\<rparr>))"
    and "P (waitDrain dn (drain_freeResources s))"
proof -
  have "\<forall>s. P s \<and> \<not> isDraining s \<longrightarrow> P (s\<lparr>isDraining := True, maintenanceIntervalID := None\<rparr>)"
    using assms(1) unfolding stable_drain_def by (elim conjE)
  then show "\<not> isDraining s \<Longrightarrow> P (s\<lparr>isDraining := True, maintenanceIntervalID := None\<rparr>)"
    using assms(2) by blast
  have "\<forall>s. P s \<and> agingRequests s \<noteq> [] \<longrightarrow>
        P (served (last (agingRequests s)) (Inl POOL_ACQUIRE_ABORTED_BY_DRAIN)
             (s\<lparr>agingRequests := butlast (agingRequests s)\<rparr>))"
    using assms(1) unfolding stable_drain_def by (elim conjE)
  then show "agingRequests s \<noteq> [] \<Longrightarrow>
         P (served (last (agingRequests s)) (Inl POOL_ACQUIRE_ABORTED_BY_DRAIN)
              (s\<lparr>agingRequests := butlast (agingRequests s)\<rparr>))"
    using assms(2) by blast
  have "\<forall>s. P s \<and> agelessRequests s \<noteq> [] \<longrightarrow>
        P (served (last (agelessRequests s)) (Inl POOL_ACQUIRE_ABORTED_BY_DRAIN)
             (s\<lparr>agelessRequests := butlast (agelessRequests s)\<rparr>))"
    using assms(1) unfolding stable_drain_def by (elim conjE)
  then show "agelessRequests s \<noteq> [] \<Longrightarrow>
         P (served (last (agelessRequests s)) (Inl POOL_ACQUIRE_ABORTED_BY_DRAIN)
              (s\<lparr>agelessRequests := butlast (agelessRequests s)\<rparr>))"
    using assms(2) by blast
  have "\<forall>s dn. P s \<longrightarrow> P (waitDrain dn (drain_freeResources s))"
    using assms(1) unfolding stable_drain_def by (elim conjE)
  then show "P (waitDrain dn (drain_freeResources s))"
    using assms(2) by blast
qed

lemma stable_timersD:
  assumes "stable_timers P" and "P s"
  shows "\<not> isDraining s \<Longrightarrow> \<not> isMaintaining s \<Longrightarrow>
         P (destroyIdleResources (destroyExpiredResources (s\<lparr>isMaintaining := True\<rparr>)))"
    and "agingRequests s = req # rest \<Longrightarrow> js_gt (Num now) (acquireTimeoutAt req) \<Longrightarrow>
         P (served req (Inl POOL_ACQUIRE_TIMEOUT_ERROR) (s\<lparr>agingRequests := rest\<rparr>))"
    and "nextFreeResource s = (None, s1) \<Longrightarrow> P s1"
    and "agingRequests s = req # rest \<Longrightarrow> nextFreeResource s = (Some res, s1) \<Longrightarrow>
         P (served req (Inr res) (s1\<lparr>agingRequests := rest\<rparr>))"
    and "agelessRequests s = req # rest \<Longrightarrow> nextFreeResource s = (Some res, s1) \<Longrightarrow>
         P (served req (Inr res) (s1\<lparr>agelessRequests := rest\<rparr>))"
    and "P ((createResources s)\<lparr>isMaintaining := False\<rparr>)"
    and "P (s\<lparr>isMaintenanceScheduled := False\<rparr>)"
    and "pendingTimeouts s > 0 \<Longrightarrow> P (s\<lparr>pendingTimeouts := pendingTimeouts s - 1\<rparr>)"
    and "pendingCreates s > 0 \<Longrightarrow>
         P (createCallback result (s\<lparr>pendingCreates := pendingCreates s - 1\<rparr>))"
    and "pendingBackoffs s > 0 \<Longrightarrow> P (backoffTimer (s\<lparr>pendingBackoffs := pendingBackoffs s - 1\<rparr>))"
    and "destroyingResourceCount s > 0 \<Longrightarrow> P (destroyCallback s)"
    and "pendingTicks s = DrainDone k # ts \<Longrightarrow> P (emit (CallDrainDone k) (s\<lparr>pendingTicks := ts\<rparr>))"
    and "pendingTicks s = WaitDrain dn # ts \<Longrightarrow> P (waitDrain dn (s\<lparr>pendingTicks := ts\<rparr>))"
    and "t \<ge> clock s \<Longrightarrow> P (s\<lparr>clock := t\<rparr>)"
proof -
  have "\<forall>s. P s \<and> \<not> isDraining s \<and> \<not> isMaintaining s \<longrightarrow>
        P (destroyIdleResources (destroyExpiredResources (s\<lparr>isMaintaining := True\<rparr>)))"
    using assms(1) unfolding stable_timers_def by (elim conjE)
  then show "\<not> isDraining s \<Longrightarrow> \<not> isMaintaining s \<Longrightarrow>
         P (destroyIdleResources (destroyExpiredResources (s\<lparr>isMaintaining := True\<rparr>)))"
    using assms(2) by blast
  have "\<forall>s now req rest. P s \<and> agingRequests s = req # rest \<and>
        js_gt (Num now) (acquireTimeoutAt req) \<longrightarrow>
        P (served req (Inl POOL_ACQUIRE_TIMEOUT_ERROR) (s\<lparr>agingRequests := rest\<rparr>))"
    using assms(1) unfolding stable_timers_def by (elim conjE)
  then show "agingRequests s = req # rest \<Longrightarrow> js_gt (Num now) (acquireTimeoutAt req) \<Longrightarrow>
         P (served req (Inl POOL_ACQUIRE_TIMEOUT_ERROR) (s\<lparr>agingRequests := rest\<rparr>))"
    using assms(2) by blast
  have "\<forall>s. P s \<and> fst (nextFreeResource s) = None \<longrightarrow> P (snd (nextFreeResource s))"
    using assms(1) unfolding stable_timers_def by (elim conjE)
  then show "nextFreeResource s = (None, s1) \<Longrightarrow> P s1"
    using assms(2) by force
  have "\<forall>s req rest res. P s \<and> agingRequests s = req # rest \<and>
        fst (nextFreeResource s) = Some res \<longrightarrow>
        P (served req (Inr res) ((snd (nextFreeResource s))\<lparr>agingRequests := rest\<rparr>))"
    using assms(1) unfolding stable_timers_def by (elim conjE)
  then show "agingRequests s = req # rest \<Longrightarrow> nextFreeResource s = (Some res, s1) \<Longrightarrow>
         P (served req (Inr res) (s1\<lparr>agingRequests := rest\<rparr>))"
    using assms(2) by force
  have "\<forall>s req rest res. P s \<and> agelessRequests s = req # rest \<and>
        fst (nextFreeResource s) = Some res \<longrightarrow>
        P (served req (Inr res) ((snd (nextFreeResource s))\<lparr>agelessRequests := rest\<rparr>))"
    using assms(1) unfolding stable_timers_def by (elim conjE)
  then show "agelessRequests s = req # rest \<Longrightarrow> nextFreeResource s = (Some res, s1) \<Longrightarrow>
         P (served req (Inr res) (s1\<lparr>agelessRequests := rest\<rparr>))"
    using assms(2) by force
  have "\<forall>s. P s \<longrightarrow> P ((createResources s)\<lparr>isMaintaining := False\<rparr>)"
    using assms(1) unfolding stable_timers_def by (elim conjE)
  then show "P ((createResources s)\<lparr>isMaintaining := False\<rparr>)"
    using assms(2) by blast
  have "\<forall>s. P s \<longrightarrow> P (s\<lparr>isMaintenanceScheduled := False\<rparr>)"
    using assms(1) unfolding stable_timers_def by (elim conjE)
  then show "P (s\<lparr>isMaintenanceScheduled := False\<rparr>)"
    using assms(2) by blast
  have "\<forall>s. P s \<and> pendingTimeouts s > 0 \<longrightarrow> P (s\<lparr>pendingTimeouts := pendingTimeouts s - 1\<rparr>)"
    using assms(1) unfolding stable_timers_def by (elim conjE)
  then show "pendingTimeouts s > 0 \<Longrightarrow> P (s\<lparr>pendingTimeouts := pendingTimeouts s - 1\<rparr>)"
    using assms(2) by blast
  have "\<forall>s result. P s \<and> pendingCreates s > 0 \<longrightarrow>
        P (createCallback result (s\<lparr>pendingCreates := pendingCreates s - 1\<rparr>))"
    using assms(1) unfolding stable_timers_def by (elim conjE)
  then show "pendingCreates s > 0 \<Longrightarrow>
         P (createCallback result (s\<lparr>pendingCreates := pendingCreates s - 1\<rparr>))"
    using assms(2) by blast
  have "\<forall>s. P s \<and> pendingBackoffs s > 0 \<longrightarrow>
        P (backoffTimer (s\<lparr>pendingBackoffs := pendingBackoffs s - 1\<rparr>))"
    using assms(1) unfolding stable_timers_def by (elim conjE)
  then show "pendingBackoffs s > 0 \<Longrightarrow> P (backoffTimer (s\<lparr>pendingBackoffs := pendingBackoffs s - 1\<rparr>))"
    using assms(2) by blast
  have "\<forall>s. P s \<and> destroyingResourceCount s > 0 \<longrightarrow> P (destroyCallback s)"
    using assms(1) unfolding stable_timers_def by (elim conjE)
  then show "destroyingResourceCount s > 0 \<Longrightarrow> P (destroyCallback s)"
    using assms(2) by blast
  have "\<forall>s k ts. P s \<and> pendingTicks s = DrainDone k # ts \<longrightarrow>
        P (emit (CallDrainDone k) (s\<lparr>pendingTicks := ts\<rparr>))"
    using assms(1) unfolding stable_timers_def by (elim conjE)
  then show "pendingTicks s = DrainDone k # ts \<Longrightarrow> P (emit (CallDrainDone k) (s\<lparr>pendingTicks := ts\<rparr>))"
    using assms(2) by blast
  have "\<forall>s dn ts. P s \<and> pendingTicks s = WaitDrain dn # ts \<longrightarrow>
        P (waitDrain dn (s\<lparr>pendingTicks := ts\<rparr>))"
    using assms(1) unfolding stable_timers_def by (elim conjE)
  then show "pendingTicks s = WaitDrain dn # ts \<Longrightarrow> P (waitDrain dn (s\<lparr>pendingTicks := ts\<rparr>))"
    using assms(2) by blast
  have "\<forall>s t. P s \<and> t \<ge> clock s \<longrightarrow> P (s\<lparr>clock := t\<rparr>)"
    using assms(1) unfolding stable_timers_def by (elim conjE)
  then show "t \<ge> clock s \<Longrightarrow> P (s\<lparr>clock := t\<rparr>)"
    using assms(2) by blast
qed

lemma acquire_rule:
  assumes "stable_calls P" and "preserves P rc" and "P s" and "acquire rc options dn s = Some t"
  shows "P t"
proof (cases "isDraining s")
  case True
  have "P (rejected options dn POOL_ACQUIRE_DURING_DRAINING s)"
    using assms(1,3) True by (rule stable_callsD)
  with assms(2) show ?thesis using assms(4) True
    by (auto simp: acquire_unfold dest: preservesD)
next
  case False
  show ?thesis
  proof (cases "queue_full s")
    case True
    have "P (rejected options dn POOL_MAX_REQUESTS_LIMIT s)"
      using assms(1,3) False True by (rule stable_callsD)
    with assms(2) show ?thesis using assms(4) True False
      by (auto simp: acquire_unfold dest: preservesD)
  next
    case False2: False
    have "P (enqueued options dn s)"
      using assms(1,3) False False2 by (rule stable_callsD)
    then show ?thesis using assms(4) False False2 by (simp add: acquire_unfold)
  qed
qed

lemma first_drain_rule:
  assumes "stable_drain P"
  shows "first_drain P"
  unfolding first_drain_def
proof (intro allI impI)
  fix k m dn and s t :: "'a pool"
  assume rc: "preserves P (run_calls m)" and p: "P s" and n: "\<not> isDraining s"
    and d: "drain k (run_calls m) dn s = Some t"
  let ?s0 = "s\<lparr>isDraining := True, maintenanceIntervalID := None\<rparr>"
  from d n obtain s1 s2 where
    1: "drain_agingRequests k (run_calls m) ?s0 = Some s1"
    and 2: "drain_agelessRequests k (run_calls m) s1 = Some s2"
    and 3: "t = waitDrain dn (drain_freeResources s2)"
    by (auto simp: drain_def dest!: bind_SomeD)
  have p0: "P ?s0" using assms p n by (rule stable_drainD)
  have "P s1 \<and> agingRequests s1 = []"
    using rc stable_drainD(2) [OF assms] p0 1 by (rule drain_agingRequests_rule)
  then have p1: "P s1" by simp
  have "P s2 \<and> agelessRequests s2 = []"
    using rc stable_drainD(3) [OF assms] p1 2 by (rule drain_agelessRequests_rule)
  then have "P s2" by simp
  then show "P t" unfolding 3 by (rule stable_drainD(4) [OF assms])
qed

lemma drain_rule:
  assumes "stable_calls P" and "first_drain P" and "preserves P (run_calls m)" and "P s"
    and "drain k (run_calls m) dn s = Some t"
  shows "P t"
proof (cases "isDraining s")
  case True
  then have "t = waitDrain dn s" using assms(5) by (simp add: drain_def)
  then show ?thesis using stable_callsD(8) [OF assms(1,4) True] by simp
next
  case False
  then show ?thesis using assms(2-5) unfolding first_drain_def by blast
qed

text \<open>The calls of callbacks, to any depth, keep what every clause keeps.\<close>

lemma run_calls_rule:
  assumes "stable_calls P" and "first_drain P"
  shows "preserves P (run_calls n)"
proof (induction n)
  case 0
  show ?case by (simp add: preserves_def split: if_splits)
next
  case (Suc n)
  have c: "P t" if "P s" "run_call n (run_calls n) c s = Some t" for c and s t :: "'a pool"
  proof (cases c)
    case (CallAcquire options dn)
    then show ?thesis using that acquire_rule [OF assms(1) Suc] by (simp add: run_call_def)
  next
    case (CallAcquireSync options)
    then show ?thesis using that stable_callsD(4) [OF assms(1) that(1)]
      by (auto simp: run_call_def)
  next
    case (CallRelease v)
    then show ?thesis using that stable_callsD(5) [OF assms(1) that(1)]
      by (auto simp: run_call_def)
  next
    case (CallDestroy v)
    then show ?thesis using that stable_callsD(6) [OF assms(1) that(1)]
      by (auto simp: run_call_def)
  next
    case (CallDrain dn)
    then show ?thesis using that drain_rule [OF assms Suc] by (simp add: run_call_def)
  next
    case (CallSetMaintenanceInterval interval)
    then show ?thesis using that stable_callsD(7) [OF assms(1) that(1)]
      by (auto simp: run_call_def)
  qed
  show ?case
    unfolding preserves_def
  proof (intro allI impI)
    fix cs and s t :: "'a pool"
    assume "P s" "run_calls (Suc n) cs s = Some t"
    then show "P t" using run_all_rule [of P "run_call n (run_calls n)" s cs t] c by simp
  qed
qed

lemma maintain_rule:
  assumes "stable_timers P" and "preserves P rc" and "P s" and "maintain k rc s = Some t"
  shows "P t"
proof (cases "isDraining s \<or> isMaintaining s")
  case True
  then show ?thesis using assms(3,4) by (simp add: maintain_def)
next
  case False
  let ?s3 = "destroyIdleResources (destroyExpiredResources (s\<lparr>isMaintaining := True\<rparr>))"
  from assms(4) False obtain s4 s5 where
    4: "serveAging_loop k rc (clock ?s3) ?s3 = Some s4"
    and 5: "serveAgelessRequests k rc s4 = Some s5"
    and 6: "t = (createResources s5)\<lparr>isMaintaining := False\<rparr>"
    by (auto simp: maintain_def serveAgingRequests_def Let_def dest!: bind_SomeD)
  have p3: "P ?s3" using assms(1,3) False by (simp add: stable_timersD(1))
  have p4: "P s4"
    using assms(2) _ _ _ p3 4
  proof (rule serveAging_loop_rule)
    fix u :: "'a pool" and req rest
    assume "P u" "agingRequests u = req # rest" "js_gt (Num (clock ?s3)) (acquireTimeoutAt req)"
    then show "P (served req (Inl POOL_ACQUIRE_TIMEOUT_ERROR) (u\<lparr>agingRequests := rest\<rparr>))"
      by (rule stable_timersD(2) [OF assms(1)])
  next
    fix u s1 :: "'a pool" and req rest res
    assume "P u" "agingRequests u = req # rest" "nextFreeResource u = (Some res, s1)"
    then show "P (served req (Inr res) (s1\<lparr>agingRequests := rest\<rparr>))"
      by (rule stable_timersD(4) [OF assms(1)])
  next
    fix u s1 :: "'a pool" and req rest
    assume "P u" "nextFreeResource u = (None, s1)"
    then show "P s1" by (rule stable_timersD(3) [OF assms(1)])
  qed
  have p5: "P s5"
    using assms(2) _ _ p4 5
  proof (rule serveAgelessRequests_rule)
    fix u s1 :: "'a pool" and req rest res
    assume "P u" "agelessRequests u = req # rest" "nextFreeResource u = (Some res, s1)"
    then show "P (served req (Inr res) (s1\<lparr>agelessRequests := rest\<rparr>))"
      by (rule stable_timersD(5) [OF assms(1)])
  next
    fix u s1 :: "'a pool" and req rest
    assume "P u" "nextFreeResource u = (None, s1)"
    then show "P s1" by (rule stable_timersD(3) [OF assms(1)])
  qed
  show ?thesis unfolding 6 using assms(1) p5 by (rule stable_timersD(6))
qed

text \<open>Every step of the event loop keeps it, and so does every run.\<close>

lemma step_rule:
  assumes c: "stable_calls P" and d: "first_drain P" and m: "stable_timers P"
    and p: "P s" and st: "step n e s = Some t"
  shows "P t"
proof -
  have rc: "preserves P (run_calls n)" using c d by (rule run_calls_rule)
  show ?thesis
  proof (cases e)
    case (Acquire options dn)
    then show ?thesis using acquire_rule [OF c rc p] st by simp
  next
    case (AcquireSync options)
    then show ?thesis using stable_callsD(4) [OF c p] st by auto
  next
    case (Release v)
    then show ?thesis using stable_callsD(5) [OF c p] st by auto
  next
    case (Destroy v)
    then show ?thesis using stable_callsD(6) [OF c p] st by auto
  next
    case (Drain dn)
    then show ?thesis using drain_rule [OF c d rc p] st by simp
  next
    case (SetMaintenanceInterval interval)
    then show ?thesis using stable_callsD(7) [OF c p] st by auto
  next
    case IntervalFires
    then show ?thesis using maintain_rule [OF m rc p] st by (simp split: if_splits)
  next
    case TimeoutFires
    then obtain u where
      u: "maintain n (run_calls n) (s\<lparr>pendingTimeouts := pendingTimeouts s - 1\<rparr>) = Some u"
      and t: "t = u\<lparr>isMaintenanceScheduled := False\<rparr>" and g: "pendingTimeouts s > 0"
      using st by (auto simp: scheduledMaintain_def split: if_splits dest!: bind_SomeD)
    have "P (s\<lparr>pendingTimeouts := pendingTimeouts s - 1\<rparr>)"
      using m p g by (rule stable_timersD(8))
    then have "P u" using u by (rule maintain_rule [OF m rc])
    then show ?thesis unfolding t by (rule stable_timersD(7) [OF m])
  next
    case (CreateDone result)
    then show ?thesis using stable_timersD(9) [OF m p] st by (auto split: if_splits)
  next
    case BackoffFires
    then show ?thesis using stable_timersD(10) [OF m p] st by (auto split: if_splits)
  next
    case DestroyDone
    then show ?thesis using stable_timersD(11) [OF m p] st by (auto split: if_splits)
  next
    case Tick
    then show ?thesis using stable_timersD(12,13) [OF m p] st
      by (auto split: list.splits task.splits)
  next
    case (ClockAdvance x)
    then show ?thesis using stable_timersD(14) [OF m p] st by (auto split: if_splits)
  qed
qed

lemma run_rule:
  assumes "stable_calls P" and "first_drain P" and "stable_timers P"
  shows "P s \<Longrightarrow> run n evs s = Some t \<Longrightarrow> P t"
  unfolding run_def using step_rule [OF assms] by (rule run_all_rule)

section \<open>The deadline of a request\<close>

text \<open>
  C10. An \<open>acquire\<close> whose options give \<open>timeout = 0\<close> behaves in every state, and whatever its
  callback does, exactly as an \<open>acquire\<close> with no options and as one whose options leave
  \<open>timeout\<close> out: \<open>0\<close> is falsy, so \<open>options.timeout || this.acquireTimeout\<close> is the pool's
  default, and the deadline is the clock plus that default. When the default is \<open>undefined\<close>
  too, the deadline is not a number, and \<open>_insertRequestByAcquireTimeout\<close> appends the request
  to the ageless queue of whatever pool state it is given.
\<close>

theorem acquire_timeout_zero:
  fixes s :: "'v pool" and dn :: "'v reply \<Rightarrow> 'v call list"
  defines "req \<equiv> fst (createRequest (Some \<lparr>timeout = Num 0\<rparr>) (Some dn) s)"
  shows "acquire rc (Some \<lparr>timeout = Num 0\<rparr>) dn s = acquire rc None dn s \<and>
         acquire rc (Some \<lparr>timeout = Num 0\<rparr>) dn s =
           acquire rc (Some \<lparr>timeout = Undefined\<rparr>) dn s \<and>
         acquireTimeoutAt req = js_add (Num (clock s)) (acquireTimeout (cfg s)) \<and>
         (acquireTimeout (cfg s) = Undefined \<longrightarrow>
            isNaN (acquireTimeoutAt req) \<and>
            (\<forall>s'. insertRequestByAcquireTimeout req s' =
                    s'\<lparr>agelessRequests := agelessRequests s' @ [req]\<rparr>))"
  by (simp add: req_def acquire_def createRequest_def timeout_of_def js_or_def Let_def
        insertRequestByAcquireTimeout_def)

theorem acquire_timeout_zero_witness:
  "acquireTimeout (cfg (newPool test_options 100)) = Undefined \<and>
   map_option agelessRequests
     (acquire (run_calls 0) (Some \<lparr>timeout = Num 0\<rparr>) (\<lambda>_. []) (newPool test_options 100)) =
     Some [\<lparr>rid = 0, done_cb = Some (\<lambda>_. []), req_createdAt = 100, acquireTimeoutAt = NaN\<rparr>] \<and>
   map_option agingRequests
     (acquire (run_calls 0) (Some \<lparr>timeout = Num 0\<rparr>) (\<lambda>_. []) (newPool test_options 100)) =
     Some []"
  using acquire_timeout_zero [of "run_calls 0" "\<lambda>_. []" "newPool test_options 100"]
  by (simp add: pool_defs pool_loops test_options_def
           cong: pool_cong)

section \<open>Topping up\<close>









section \<open>What the pool's functions leave as it is\<close>

fun done_of :: "'v effect \<Rightarrow> nat option" where
  "done_of (CallDone r x) = Some r"
| "done_of _ = None"

fun enq_of :: "'v effect \<Rightarrow> nat option" where
  "enq_of (EmitEnqueueRequest r) = Some r"
| "enq_of _ = None"

definition dones :: "'v pool \<Rightarrow> nat list" where
  "dones s = List.map_filter done_of (trace s)"

definition acquired :: "'v pool \<Rightarrow> nat list" where
  "acquired s = List.map_filter enq_of (trace s)"

lemma map_filter_append: "List.map_filter f (xs @ ys) = List.map_filter f xs @ List.map_filter f ys"
  by (simp add: List.map_filter_def)

lemma emit_frame [simp]:
  "isDraining (emit e s) = isDraining s"
  "cfg (emit e s) = cfg s"
  "nextRid (emit e s) = nextRid s"
  "freeResources (emit e s) = freeResources s"
  "dones (emit e s) = dones s @ (case done_of e of None \<Rightarrow> [] | Some r \<Rightarrow> [r])"
  "acquired (emit e s) = acquired s @ (case enq_of e of None \<Rightarrow> [] | Some r \<Rightarrow> [r])"
  by (simp_all add: emit_def dones_def acquired_def map_filter_append List.map_filter_def
      split: option.splits)

lemma update_frame [simp]:
  "dones (s\<lparr>agingRequests := a\<rparr>) = dones s"
  "dones (s\<lparr>agelessRequests := b\<rparr>) = dones s"
  "dones (s\<lparr>freeResources := c\<rparr>) = dones s"
  "dones (s\<lparr>lentResources := d\<rparr>) = dones s"
  "dones (s\<lparr>nextRid := e\<rparr>) = dones s"
  "dones (s\<lparr>isDraining := f\<rparr>) = dones s"
  "dones (s\<lparr>isMaintaining := g\<rparr>) = dones s"
  "dones (s\<lparr>isMaintenanceScheduled := h\<rparr>) = dones s"
  "dones (s\<lparr>pendingTimeouts := i\<rparr>) = dones s"
  "dones (s\<lparr>pendingCreates := j\<rparr>) = dones s"
  "dones (s\<lparr>pendingBackoffs := k\<rparr>) = dones s"
  "dones (s\<lparr>pendingTicks := l\<rparr>) = dones s"
  "dones (s\<lparr>clock := m\<rparr>) = dones s"
  "dones (s\<lparr>creatingResourceCount := n\<rparr>) = dones s"
  "dones (s\<lparr>destroyingResourceCount := n\<rparr>) = dones s"
  "dones (s\<lparr>maintenanceIntervalID := p\<rparr>) = dones s"
  "dones (s\<lparr>maintenanceInterval := q\<rparr>) = dones s"
  "dones (s\<lparr>nextResId := e\<rparr>) = dones s"
  "dones (s\<lparr>createCalls := e\<rparr>) = dones s"
  "dones (s\<lparr>lastIdleCheckAt := q\<rparr>) = dones s"
  "dones (s\<lparr>lastExpireCheckAt := q\<rparr>) = dones s"
  "acquired (s\<lparr>agingRequests := a\<rparr>) = acquired s"
  "acquired (s\<lparr>agelessRequests := b\<rparr>) = acquired s"
  "acquired (s\<lparr>freeResources := c\<rparr>) = acquired s"
  "acquired (s\<lparr>lentResources := d\<rparr>) = acquired s"
  "acquired (s\<lparr>nextRid := e\<rparr>) = acquired s"
  "acquired (s\<lparr>isDraining := f\<rparr>) = acquired s"
  "acquired (s\<lparr>isMaintaining := g\<rparr>) = acquired s"
  "acquired (s\<lparr>isMaintenanceScheduled := h\<rparr>) = acquired s"
  "acquired (s\<lparr>pendingTimeouts := i\<rparr>) = acquired s"
  "acquired (s\<lparr>pendingCreates := j\<rparr>) = acquired s"
  "acquired (s\<lparr>pendingBackoffs := k\<rparr>) = acquired s"
  "acquired (s\<lparr>pendingTicks := l\<rparr>) = acquired s"
  "acquired (s\<lparr>clock := m\<rparr>) = acquired s"
  "acquired (s\<lparr>creatingResourceCount := n\<rparr>) = acquired s"
  "acquired (s\<lparr>destroyingResourceCount := n\<rparr>) = acquired s"
  "acquired (s\<lparr>maintenanceIntervalID := p\<rparr>) = acquired s"
  "acquired (s\<lparr>maintenanceInterval := q\<rparr>) = acquired s"
  "acquired (s\<lparr>nextResId := e\<rparr>) = acquired s"
  "acquired (s\<lparr>createCalls := e\<rparr>) = acquired s"
  "acquired (s\<lparr>lastIdleCheckAt := q\<rparr>) = acquired s"
  "acquired (s\<lparr>lastExpireCheckAt := q\<rparr>) = acquired s"
  by (simp_all add: dones_def acquired_def)

lemma scheduleMaintainance_frame [simp]:
  "isDraining (scheduleMaintainance s) = isDraining s"
  "cfg (scheduleMaintainance s) = cfg s"
  "nextRid (scheduleMaintainance s) = nextRid s"
  "freeResources (scheduleMaintainance s) = freeResources s"
  "dones (scheduleMaintainance s) = dones s"
  "acquired (scheduleMaintainance s) = acquired s"
  by (simp_all add: scheduleMaintainance_def)

lemma destroyResource_frame [simp]:
  "isDraining (destroyResource r s) = isDraining s"
  "cfg (destroyResource r s) = cfg s"
  "nextRid (destroyResource r s) = nextRid s"
  "freeResources (destroyResource r s) = freeResources s"
  "dones (destroyResource r s) = dones s"
  "acquired (destroyResource r s) = acquired s"
  by (simp_all add: destroyResource_def destroyCallback_def Let_def)

lemma storeResource_frame [simp]:
  "isDraining (storeResource r s) = isDraining s"
  "cfg (storeResource r s) = cfg s"
  "nextRid (storeResource r s) = nextRid s"
  "dones (storeResource r s) = dones s"
  "acquired (storeResource r s) = acquired s"
  by (simp_all add: storeResource_def)

lemma nextFreeResource_frame [simp]:
  "isDraining (snd (nextFreeResource s)) = isDraining s"
  "cfg (snd (nextFreeResource s)) = cfg s"
  "nextRid (snd (nextFreeResource s)) = nextRid s"
  "dones (snd (nextFreeResource s)) = dones s"
  "acquired (snd (nextFreeResource s)) = acquired s"
  by (induction s rule: nextFreeResource.induct;
      subst nextFreeResource.simps; simp split: list.splits)+

lemma serveRequest_body_frame [simp]:
  "isDraining (serveRequest_body req x s) = isDraining s"
  "cfg (serveRequest_body req x s) = cfg s"
  "nextRid (serveRequest_body req x s) = nextRid s"
  "freeResources (serveRequest_body req x s) = freeResources s"
  "dones (serveRequest_body req x s) = dones s"
  "acquired (serveRequest_body req x s) = acquired s"
  by (simp_all add: serveRequest_body_def split: sum.splits)

lemma release_frame [simp]:
  "isDraining (release v s) = isDraining s"
  "cfg (release v s) = cfg s"
  "nextRid (release v s) = nextRid s"
  "dones (release v s) = dones s"
  "acquired (release v s) = acquired s"
  by (simp_all add: release_def Let_def)

lemma destroy_frame [simp]:
  "isDraining (destroy v s) = isDraining s"
  "cfg (destroy v s) = cfg s"
  "nextRid (destroy v s) = nextRid s"
  "dones (destroy v s) = dones s"
  "acquired (destroy v s) = acquired s"
  by (simp_all add: destroy_def Let_def)

lemma createRequest_frame [simp]:
  "isDraining (snd (createRequest options dn s)) = isDraining s"
  "cfg (snd (createRequest options dn s)) = cfg s"
  "nextRid (snd (createRequest options dn s)) = Suc (nextRid s)"
  "freeResources (snd (createRequest options dn s)) = freeResources s"
  "dones (snd (createRequest options dn s)) = dones s"
  "acquired (snd (createRequest options dn s)) = acquired s"
  "rid (fst (createRequest options dn s)) = nextRid s"
  "done_cb (fst (createRequest options dn s)) = dn"
  by (simp_all add: createRequest_def Let_def)

lemma acquireSync_frame [simp]:
  "isDraining (snd (acquireSync options s)) = isDraining s"
  "cfg (snd (acquireSync options s)) = cfg s"
  "dones (snd (acquireSync options s)) = dones s"
  "acquired (snd (acquireSync options s)) = acquired s"
proof -
  obtain x s1 where n: "nextFreeResource s = (x, s1)" by (cases "nextFreeResource s")
  have f: "isDraining s1 = isDraining s" "cfg s1 = cfg s" "dones s1 = dones s"
    "acquired s1 = acquired s"
    using nextFreeResource_frame [of s] n by simp_all
  show "isDraining (snd (acquireSync options s)) = isDraining s"
    "cfg (snd (acquireSync options s)) = cfg s"
    "dones (snd (acquireSync options s)) = dones s"
    "acquired (snd (acquireSync options s)) = acquired s"
    using n f by (simp_all add: acquireSync_def createRequest_def Let_def split: option.splits)
qed

lemma acquireSync_nextRid: "nextRid s \<le> nextRid (snd (acquireSync options s))"
proof -
  obtain x s1 where n: "nextFreeResource s = (x, s1)" by (cases "nextFreeResource s")
  have f: "nextRid s1 = nextRid s"
    using nextFreeResource_frame [of s] n by simp
  show ?thesis
    using n f by (simp add: acquireSync_def createRequest_def Let_def split: option.splits)
qed

lemma insertRequestByAcquireTimeout_frame [simp]:
  "isDraining (insertRequestByAcquireTimeout req s) = isDraining s"
  "cfg (insertRequestByAcquireTimeout req s) = cfg s"
  "nextRid (insertRequestByAcquireTimeout req s) = nextRid s"
  "freeResources (insertRequestByAcquireTimeout req s) = freeResources s"
  "dones (insertRequestByAcquireTimeout req s) = dones s"
  "acquired (insertRequestByAcquireTimeout req s) = acquired s"
  by (simp_all add: insertRequestByAcquireTimeout_def Let_def)

lemma createCallback_frame [simp]:
  "isDraining (createCallback result s) = isDraining s"
  "cfg (createCallback result s) = cfg s"
  "nextRid (createCallback result s) = nextRid s"
  "dones (createCallback result s) = dones s"
  "acquired (createCallback result s) = acquired s"
  "agingRequests (createCallback result s) = agingRequests s"
  "agelessRequests (createCallback result s) = agelessRequests s"
  by (simp_all add: createCallback_def Let_def split: option.splits)

lemma createResource_frame [simp]:
  "isDraining (createResource s) = isDraining s"
  "cfg (createResource s) = cfg s"
  "nextRid (createResource s) = nextRid s"
  "dones (createResource s) = dones s"
  "acquired (createResource s) = acquired s"
  "agingRequests (createResource s) = agingRequests s"
  "agelessRequests (createResource s) = agelessRequests s"
  by (simp_all add: createResource_def Let_def split: outcome.splits)

lemma createLoop_frame [simp]:
  "isDraining (createLoop extra s) = isDraining s"
  "cfg (createLoop extra s) = cfg s"
  "nextRid (createLoop extra s) = nextRid s"
  "dones (createLoop extra s) = dones s"
  "acquired (createLoop extra s) = acquired s"
  "agingRequests (createLoop extra s) = agingRequests s"
  "agelessRequests (createLoop extra s) = agelessRequests s"
proof -
  let ?P = "\<lambda>t. isDraining t = isDraining s \<and> cfg t = cfg s \<and> nextRid t = nextRid s \<and>
                dones t = dones s \<and> acquired t = acquired s \<and>
                agingRequests t = agingRequests s \<and> agelessRequests t = agelessRequests s"
  have "?P (createLoop extra s)"
    by (rule createLoop_rule [where P = ?P]) simp_all
  then show "isDraining (createLoop extra s) = isDraining s"
    "cfg (createLoop extra s) = cfg s"
    "nextRid (createLoop extra s) = nextRid s"
    "dones (createLoop extra s) = dones s"
    "acquired (createLoop extra s) = acquired s"
    "agingRequests (createLoop extra s) = agingRequests s"
    "agelessRequests (createLoop extra s) = agelessRequests s"
    by simp_all
qed

lemma createResources_frame [simp]:
  "isDraining (createResources s) = isDraining s"
  "cfg (createResources s) = cfg s"
  "nextRid (createResources s) = nextRid s"
  "dones (createResources s) = dones s"
  "acquired (createResources s) = acquired s"
  "agingRequests (createResources s) = agingRequests s"
  "agelessRequests (createResources s) = agelessRequests s"
  by (simp_all add: createResources_def)

lemma destroyResource_frame2 [simp]:
  "lentResources (destroyResource r s) = lentResources s"
  "nextResId (destroyResource r s) = nextResId s"
  "clock (destroyResource r s) = clock s"
  by (simp_all add: destroyResource_def destroyCallback_def emit_def Let_def)

lemma fold_destroyResource_frame [simp]:
  "isDraining (fold destroyResource rs s) = isDraining s"
  "cfg (fold destroyResource rs s) = cfg s"
  "nextRid (fold destroyResource rs s) = nextRid s"
  "dones (fold destroyResource rs s) = dones s"
  "acquired (fold destroyResource rs s) = acquired s"
  "agingRequests (fold destroyResource rs s) = agingRequests s"
  "agelessRequests (fold destroyResource rs s) = agelessRequests s"
  "freeResources (fold destroyResource rs s) = freeResources s"
  "lentResources (fold destroyResource rs s) = lentResources s"
  "nextResId (fold destroyResource rs s) = nextResId s"
  by (induction rs arbitrary: s; simp)+

lemma destroyDeadResources_frame [simp]:
  "isDraining (destroyDeadResources key tmo s) = isDraining s"
  "cfg (destroyDeadResources key tmo s) = cfg s"
  "nextRid (destroyDeadResources key tmo s) = nextRid s"
  "dones (destroyDeadResources key tmo s) = dones s"
  "acquired (destroyDeadResources key tmo s) = acquired s"
  "agingRequests (destroyDeadResources key tmo s) = agingRequests s"
  "agelessRequests (destroyDeadResources key tmo s) = agelessRequests s"
  by (simp_all add: destroyDeadResources_def Let_def split: prod.splits)

lemma destroyIdleResources_frame [simp]:
  "isDraining (destroyIdleResources s) = isDraining s"
  "cfg (destroyIdleResources s) = cfg s"
  "nextRid (destroyIdleResources s) = nextRid s"
  "dones (destroyIdleResources s) = dones s"
  "acquired (destroyIdleResources s) = acquired s"
  "agingRequests (destroyIdleResources s) = agingRequests s"
  "agelessRequests (destroyIdleResources s) = agelessRequests s"
  by (simp_all add: destroyIdleResources_def)

lemma destroyExpiredResources_frame [simp]:
  "isDraining (destroyExpiredResources s) = isDraining s"
  "cfg (destroyExpiredResources s) = cfg s"
  "nextRid (destroyExpiredResources s) = nextRid s"
  "dones (destroyExpiredResources s) = dones s"
  "acquired (destroyExpiredResources s) = acquired s"
  "agingRequests (destroyExpiredResources s) = agingRequests s"
  "agelessRequests (destroyExpiredResources s) = agelessRequests s"
  by (simp_all add: destroyExpiredResources_def)


lemma waitDrain_frame [simp]:
  "isDraining (waitDrain dn s) = isDraining s"
  "cfg (waitDrain dn s) = cfg s"
  "nextRid (waitDrain dn s) = nextRid s"
  "dones (waitDrain dn s) = dones s"
  "acquired (waitDrain dn s) = acquired s"
  "agingRequests (waitDrain dn s) = agingRequests s"
  "agelessRequests (waitDrain dn s) = agelessRequests s"
  "freeResources (waitDrain dn s) = freeResources s"
  "lentResources (waitDrain dn s) = lentResources s"
  "nextResId (waitDrain dn s) = nextResId s"
  by (simp_all add: waitDrain_def emit_def dones_def acquired_def map_filter_append
        List.map_filter_def Let_def split: option.splits)

lemma small_frames [simp]:
  "isDraining (setMaintenanceInterval i s) = isDraining s"
  "cfg (setMaintenanceInterval i s) = cfg s"
  "isDraining (backoffTimer s) = isDraining s"
  "cfg (backoffTimer s) = cfg s"
  "isDraining (destroyCallback s) = isDraining s"
  "cfg (destroyCallback s) = cfg s"
  by (simp_all add: setMaintenanceInterval_def backoffTimer_def destroyCallback_def)

lemma served_frame [simp]:
  "isDraining (served req x s) = isDraining s"
  "cfg (served req x s) = cfg s"
  "nextRid (served req x s) = nextRid s"
  "freeResources (served req x s) = freeResources s"
  "agingRequests (served req x s) = agingRequests s"
  "agelessRequests (served req x s) = agelessRequests s"
  "acquired (served req x s) = acquired s"
  "dones (served req x s) = dones s @ (if done_cb req = None then [] else [rid req])"
  by (simp_all add: served_def split: option.splits)

lemma rejected_frame [simp]:
  "isDraining (rejected options dn e s) = isDraining s"
  "cfg (rejected options dn e s) = cfg s"
  "nextRid (rejected options dn e s) = Suc (nextRid s)"
  "freeResources (rejected options dn e s) = freeResources s"
  "lentResources (rejected options dn e s) = lentResources s"
  "agingRequests (rejected options dn e s) = agingRequests s"
  "agelessRequests (rejected options dn e s) = agelessRequests s"
  "acquired (rejected options dn e s) = acquired s @ [nextRid s]"
  "dones (rejected options dn e s) = dones s @ [nextRid s]"
  by (simp_all add: rejected_def createRequest_def served_def serveRequest_body_def emit_def
        dones_def acquired_def map_filter_append List.map_filter_simps Let_def)

lemma enqueued_frame [simp]:
  "isDraining (enqueued options dn s) = isDraining s"
  "cfg (enqueued options dn s) = cfg s"
  "nextRid (enqueued options dn s) = Suc (nextRid s)"
  "freeResources (enqueued options dn s) = freeResources s"
  "lentResources (enqueued options dn s) = lentResources s"
  "acquired (enqueued options dn s) = acquired s @ [nextRid s]"
  "dones (enqueued options dn s) = dones s"
  by (simp_all add: enqueued_def createRequest_def insertRequestByAcquireTimeout_def
        scheduleMaintainance_def emit_def dones_def acquired_def map_filter_append
        List.map_filter_simps Let_def)

lemma drain_freeResources_frame [simp]:
  "isDraining (drain_freeResources s) = isDraining s"
  "cfg (drain_freeResources s) = cfg s"
  "nextRid (drain_freeResources s) = nextRid s"
  "dones (drain_freeResources s) = dones s"
  "acquired (drain_freeResources s) = acquired s"
  "agingRequests (drain_freeResources s) = agingRequests s"
  "agelessRequests (drain_freeResources s) = agelessRequests s"
  "lentResources (drain_freeResources s) = lentResources s"
  "nextResId (drain_freeResources s) = nextResId s"
  "freeResources (drain_freeResources s) = []"
proof -
  let ?P = "\<lambda>t. isDraining t = isDraining s \<and> cfg t = cfg s \<and> nextRid t = nextRid s \<and>
                dones t = dones s \<and> acquired t = acquired s \<and>
                agingRequests t = agingRequests s \<and> agelessRequests t = agelessRequests s \<and>
                lentResources t = lentResources s \<and> nextResId t = nextResId s"
  have "?P (drain_freeResources s) \<and> freeResources (drain_freeResources s) = []"
    by (rule drain_freeResources_rule [where P = ?P]) simp_all
  then show "isDraining (drain_freeResources s) = isDraining s"
    "cfg (drain_freeResources s) = cfg s"
    "nextRid (drain_freeResources s) = nextRid s"
    "dones (drain_freeResources s) = dones s"
    "acquired (drain_freeResources s) = acquired s"
    "agingRequests (drain_freeResources s) = agingRequests s"
    "agelessRequests (drain_freeResources s) = agelessRequests s"
    "lentResources (drain_freeResources s) = lentResources s"
    "nextResId (drain_freeResources s) = nextResId s"
    "freeResources (drain_freeResources s) = []"
    by simp_all
qed

section \<open>The configuration and the draining flag\<close>

lemma cfg_stable:
  "stable_calls (\<lambda>t :: 'v pool. cfg t = c)" "stable_drain (\<lambda>t :: 'v pool. cfg t = c)"
  "stable_timers (\<lambda>t :: 'v pool. cfg t = c)"
  unfolding stable_calls_def stable_drain_def stable_timers_def by simp_all

lemma run_cfg:
  assumes "run n evs s = Some t"
  shows "cfg t = cfg s"
proof -
  have "cfg s = cfg s" by simp
  then show ?thesis
    using assms
    by (rule run_rule [where P = "\<lambda>t. cfg t = cfg s",
          OF cfg_stable(1) first_drain_rule [OF cfg_stable(2)] cfg_stable(3)])
qed

lemma isDraining_stable:
  "stable_calls (isDraining :: 'v pool \<Rightarrow> bool)" "stable_drain (isDraining :: 'v pool \<Rightarrow> bool)"
  "stable_timers (isDraining :: 'v pool \<Rightarrow> bool)"
  unfolding stable_calls_def stable_drain_def stable_timers_def by simp_all

lemma step_isDraining: "isDraining s \<Longrightarrow> step n e s = Some t \<Longrightarrow> isDraining t"
  by (rule step_rule [OF isDraining_stable(1) first_drain_rule [OF isDraining_stable(2)]
        isDraining_stable(3)])

lemma run_isDraining: "isDraining s \<Longrightarrow> run n evs s = Some t \<Longrightarrow> isDraining t"
  by (rule run_rule [OF isDraining_stable(1) first_drain_rule [OF isDraining_stable(2)]
        isDraining_stable(3)])

text \<open>
  A field that the serving of requests and the handling of resources never write keeps its
  value through all of it.
\<close>

definition untouched :: "('v pool \<Rightarrow> 'a) \<Rightarrow> bool" where
  "untouched g \<longleftrightarrow>
     (\<forall>s x. g (s\<lparr>trace := x\<rparr>) = g s) \<and>
     (\<forall>s x. g (s\<lparr>freeResources := x\<rparr>) = g s) \<and>
     (\<forall>s x. g (s\<lparr>lentResources := x\<rparr>) = g s) \<and>
     (\<forall>s x. g (s\<lparr>destroyingResourceCount := x\<rparr>) = g s) \<and>
     (\<forall>s x. g (s\<lparr>isMaintenanceScheduled := x\<rparr>) = g s) \<and>
     (\<forall>s x. g (s\<lparr>pendingTimeouts := x\<rparr>) = g s) \<and>
     (\<forall>s x. g (s\<lparr>nextRid := x\<rparr>) = g s) \<and>
     (\<forall>s x. g (s\<lparr>agingRequests := x\<rparr>) = g s) \<and>
     (\<forall>s x. g (s\<lparr>agelessRequests := x\<rparr>) = g s)"

lemma untouched_fields:
  "untouched maintenanceIntervalID" "untouched isMaintaining" "untouched clock"
  "untouched creatingResourceCount" "untouched nextResId" "untouched createCalls"
  "untouched pendingCreates" "untouched pendingBackoffs" "untouched pendingTicks"
  "untouched lastIdleCheckAt" "untouched lastExpireCheckAt" "untouched maintenanceInterval"
  "untouched isDraining" "untouched cfg"
  by (simp_all add: untouched_def)

lemma untouched_basic:
  assumes "untouched g"
  shows "g (emit e s) = g s" and "g (scheduleMaintainance s) = g s"
    and "g (destroyResource r s) = g s" and "g (storeResource r s) = g s"
    and "g (serveRequest_body req x s) = g s" and "g (release v s) = g s"
    and "g (destroy v s) = g s" and "g (snd (createRequest options dn s)) = g s"
  using assms
  by (simp_all add: untouched_def emit_def scheduleMaintainance_def destroyResource_def
        destroyCallback_def storeResource_def serveRequest_body_def release_def destroy_def
        createRequest_def Let_def split: sum.splits)

lemma untouched_nextFreeResource:
  assumes "untouched g"
  shows "g (snd (nextFreeResource s)) = g s"
proof (induction s rule: nextFreeResource.induct)
  case (1 s)
  have "g (t\<lparr>freeResources := x\<rparr>) = g t" for t x
    using assms by (simp add: untouched_def)
  with 1 show ?case
    by (subst nextFreeResource.simps) (simp add: untouched_basic [OF assms] split: list.splits)
qed

lemma untouched_acquireSync:
  assumes "untouched g"
  shows "g (snd (acquireSync options s)) = g s"
proof -
  obtain x s1 where n: "nextFreeResource s = (x, s1)" by (cases "nextFreeResource s")
  have "g s1 = g s" using untouched_nextFreeResource [OF assms, of s] n by simp
  moreover have "g (t\<lparr>nextRid := y\<rparr>) = g t" for t y
    using assms by (simp add: untouched_def)
  ultimately show ?thesis
    using n
    by (simp add: acquireSync_def createRequest_def Let_def untouched_basic [OF assms]
          split: option.splits)
qed

section \<open>The resources a pool holds\<close>

text \<open>
  The core of a resource is what it is made with: its identity, \<open>value\<close>, \<open>createdAt\<close> and
  \<open>expiresAt\<close>. \<open>held\<close> collects the cores of the free and the lent resources.
\<close>

type_synonym 'v core = "nat \<times> 'v \<times> int \<times> jsval"

definition core :: "'v resource \<Rightarrow> 'v core" where
  "core r = (resId r, rvalue r, createdAt r, expiresAt r)"

definition held :: "'v pool \<Rightarrow> 'v core multiset" where
  "held s = mset (map core (freeResources s)) + mset (map core (lentResources s))"

lemma core_update [simp]:
  "core (r\<lparr>request := x\<rparr>) = core r" "core (r\<lparr>idleAt := y\<rparr>) = core r"
  by (simp_all add: core_def)

lemma held_update [simp]:
  "held (s\<lparr>trace := a\<rparr>) = held s"
  "held (s\<lparr>agingRequests := b\<rparr>) = held s"
  "held (s\<lparr>agelessRequests := c\<rparr>) = held s"
  "held (s\<lparr>nextRid := d\<rparr>) = held s"
  "held (s\<lparr>isMaintaining := e\<rparr>) = held s"
  "held (s\<lparr>isMaintenanceScheduled := f\<rparr>) = held s"
  "held (s\<lparr>pendingTimeouts := g\<rparr>) = held s"
  "held (s\<lparr>pendingCreates := h\<rparr>) = held s"
  "held (s\<lparr>pendingBackoffs := i\<rparr>) = held s"
  "held (s\<lparr>pendingTicks := j\<rparr>) = held s"
  "held (s\<lparr>clock := k\<rparr>) = held s"
  "held (s\<lparr>creatingResourceCount := l\<rparr>) = held s"
  "held (s\<lparr>destroyingResourceCount := m\<rparr>) = held s"
  "held (s\<lparr>maintenanceIntervalID := n\<rparr>) = held s"
  "held (s\<lparr>maintenanceInterval := o'\<rparr>) = held s"
  "held (s\<lparr>nextResId := p\<rparr>) = held s"
  "held (s\<lparr>createCalls := q\<rparr>) = held s"
  "held (s\<lparr>lastIdleCheckAt := u\<rparr>) = held s"
  "held (s\<lparr>lastExpireCheckAt := v\<rparr>) = held s"
  "held (s\<lparr>isDraining := w\<rparr>) = held s"
  by (simp_all add: held_def)

lemma lists_basic [simp]:
  "lentResources (emit e s) = lentResources s"
  "lentResources (scheduleMaintainance s) = lentResources s"
  "freeResources (destroyCallback s) = freeResources s"
  "lentResources (destroyCallback s) = lentResources s"
  "lentResources (snd (createRequest options dn s)) = lentResources s"
  "freeResources (backoffTimer s) = freeResources s"
  "lentResources (backoffTimer s) = lentResources s"
  "freeResources (setMaintenanceInterval i s) = freeResources s"
  "lentResources (setMaintenanceInterval i s) = lentResources s"
  "lentResources (insertRequestByAcquireTimeout req s) = lentResources s"
  by (simp_all add: emit_def scheduleMaintainance_def destroyCallback_def
        createRequest_def backoffTimer_def setMaintenanceInterval_def
        insertRequestByAcquireTimeout_def Let_def)

lemma held_basic [simp]:
  "held (emit e s) = held s"
  "held (scheduleMaintainance s) = held s"
  "held (destroyCallback s) = held s"
  "held (destroyResource r s) = held s"
  "held (snd (createRequest options dn s)) = held s"
  "held (backoffTimer s) = held s"
  "held (setMaintenanceInterval i s) = held s"
  "held (waitDrain dn' s) = held s"
  "held (insertRequestByAcquireTimeout req s) = held s"
  by (simp_all add: held_def)

lemma nextResId_basic [simp]:
  "nextResId (emit e s) = nextResId s"
  "nextResId (scheduleMaintainance s) = nextResId s"
  "nextResId (destroyCallback s) = nextResId s"
  "nextResId (storeResource r s) = nextResId s"
  "nextResId (snd (createRequest options dn s)) = nextResId s"
  "nextResId (backoffTimer s) = nextResId s"
  "nextResId (setMaintenanceInterval i s) = nextResId s"
  "nextResId (insertRequestByAcquireTimeout req s) = nextResId s"
  "nextResId (serveRequest_body req x s) = nextResId s"
  "nextResId (snd (nextFreeResource s)) = nextResId s"
  "nextResId (release v s) = nextResId s"
  "nextResId (destroy v s) = nextResId s"
  "nextResId (snd (acquireSync options s)) = nextResId s"
  by (simp_all add: untouched_basic [OF untouched_fields(5)]
        untouched_nextFreeResource [OF untouched_fields(5)]
        untouched_acquireSync [OF untouched_fields(5)]
        destroyCallback_def backoffTimer_def
        setMaintenanceInterval_def insertRequestByAcquireTimeout_def Let_def)

text \<open>A resource in hand goes to the free list or to the factory's \<open>destroy\<close>.\<close>

lemma storeResource_held: "held (storeResource r s) \<subseteq># add_mset (core r) (held s)"
  by (simp add: storeResource_def held_def)

lemma nextFreeResource_held:
  "(case fst (nextFreeResource s) of None \<Rightarrow> held (snd (nextFreeResource s))
    | Some r \<Rightarrow> add_mset (core r) (held (snd (nextFreeResource s)))) \<subseteq># held s"
proof (induction s rule: nextFreeResource.induct)
  case (1 s)
  show ?case
  proof (cases "freeResources s")
    case Nil
    then show ?thesis by (subst (1 2 3) nextFreeResource.simps) simp
  next
    case (Cons r rs)
    show ?thesis
    proof (cases "validateResource (cfg s) r")
      case True
      with Cons show ?thesis
        by (subst (1 2 3) nextFreeResource.simps) (simp add: held_def)
    next
      case False
      let ?t = "destroyResource r (s\<lparr>freeResources := rs\<rparr>)"
      have h: "held ?t \<subseteq># held s" using Cons by (simp add: held_def)
      have e: "nextFreeResource s = nextFreeResource ?t"
        using Cons False by (subst nextFreeResource.simps) simp
      show ?thesis
        unfolding e by (rule subset_mset.order_trans [OF "1.IH" [OF Cons False] h])
    qed
  qed
qed

lemma nextFreeResource_heldD:
  "nextFreeResource s = (None, s1) \<Longrightarrow> held s1 \<subseteq># held s"
  "nextFreeResource s = (Some r, s1) \<Longrightarrow> add_mset (core r) (held s1) \<subseteq># held s"
  using nextFreeResource_held [of s] by simp_all

lemma serveRequest_body_held:
  "held (serveRequest_body req x s) =
     (case x of Inl e \<Rightarrow> held s | Inr r \<Rightarrow> add_mset (core r) (held s))"
  by (simp add: serveRequest_body_def held_def split: sum.splits)

lemma getResourceIndex_from_range:
  "0 \<le> getResourceIndex_from cmp rs v n \<Longrightarrow> nat (getResourceIndex_from cmp rs v n) < n"
  by (induction n) (auto split: if_splits)

lemma getResourceIndex_range:
  "0 \<le> getResourceIndex s rs v \<Longrightarrow> nat (getResourceIndex s rs v) < length rs"
  unfolding getResourceIndex_def by (rule getResourceIndex_from_range)

lemma mset_splice1:
  "i < length xs \<Longrightarrow> add_mset (f (xs ! i)) (mset (map f (splice1 xs i))) = mset (map f xs)"
proof -
  assume i: "i < length xs"
  then have "xs = take i xs @ xs ! i # drop (Suc i) xs" by (simp add: id_take_nth_drop)
  then have "mset (map f xs) = mset (map f (take i xs @ xs ! i # drop (Suc i) xs))" by simp
  then show ?thesis by (simp add: splice1_def)
qed

lemma release_held: "held (release v s) \<subseteq># held s"
proof (cases "0 \<le> getResourceIndex s (lentResources s) v")
  case True
  let ?i = "nat (getResourceIndex s (lentResources s) v)"
  let ?s1 = "emit (EmitRelease (lentResources s ! ?i))
               (s\<lparr>lentResources := splice1 (lentResources s) ?i\<rparr>)"
  have "?i < length (lentResources s)" using True by (rule getResourceIndex_range)
  then have "add_mset (core (lentResources s ! ?i)) (held ?s1) = held s"
    using mset_splice1 [of ?i "lentResources s" core] by (simp add: held_def)
  then show ?thesis
    using True storeResource_held [of "lentResources s ! ?i" ?s1]
    by (simp add: release_def Let_def)
next
  case False
  then show ?thesis by (simp add: release_def Let_def)
qed

lemma destroy_held: "held (destroy v s) \<subseteq># held s"
proof (cases "0 \<le> getResourceIndex s (lentResources s) v")
  case True
  let ?i = "nat (getResourceIndex s (lentResources s) v)"
  have "?i < length (lentResources s)" using True by (rule getResourceIndex_range)
  then have "add_mset (core (lentResources s ! ?i))
               (held (s\<lparr>lentResources := splice1 (lentResources s) ?i\<rparr>)) = held s"
    using mset_splice1 [of ?i "lentResources s" core] by (simp add: held_def)
  moreover have "held (s\<lparr>lentResources := splice1 (lentResources s) ?i\<rparr>) \<subseteq>#
      add_mset (core (lentResources s ! ?i))
        (held (s\<lparr>lentResources := splice1 (lentResources s) ?i\<rparr>))"
    by simp
  ultimately have "held (s\<lparr>lentResources := splice1 (lentResources s) ?i\<rparr>) \<subseteq># held s"
    by simp
  then show ?thesis using True by (simp add: destroy_def Let_def)
next
  case False
  show ?thesis
  proof (cases "0 \<le> getResourceIndex s (freeResources s) v")
    case True
    let ?j = "nat (getResourceIndex s (freeResources s) v)"
    have "?j < length (freeResources s)" using True by (rule getResourceIndex_range)
    then have "add_mset (core (freeResources s ! ?j))
                 (held (s\<lparr>freeResources := splice1 (freeResources s) ?j\<rparr>)) = held s"
      using mset_splice1 [of ?j "freeResources s" core] by (simp add: held_def)
    moreover have "held (s\<lparr>freeResources := splice1 (freeResources s) ?j\<rparr>) \<subseteq>#
        add_mset (core (freeResources s ! ?j))
          (held (s\<lparr>freeResources := splice1 (freeResources s) ?j\<rparr>))"
      by simp
    ultimately have "held (s\<lparr>freeResources := splice1 (freeResources s) ?j\<rparr>) \<subseteq># held s"
      by simp
    then show ?thesis using True False by (simp add: destroy_def Let_def)
  next
    case False2: False
    with False show ?thesis by (simp add: destroy_def Let_def)
  qed
qed

lemma acquireSync_held: "held (snd (acquireSync options s)) \<subseteq># held s"
proof -
  obtain x s1 where n: "nextFreeResource s = (x, s1)" by (cases "nextFreeResource s")
  show ?thesis
  proof (cases x)
    case None
    with n nextFreeResource_heldD(1) [of s s1] show ?thesis by (simp add: acquireSync_def)
  next
    case (Some r)
    have a: "add_mset (core r) (held s1) \<subseteq># held s"
      using n Some nextFreeResource_heldD(2) by blast
    then have b: "held s1 \<subseteq># held s"
      using subset_mset.order_trans [of "held s1" "add_mset (core r) (held s1)" "held s"] by simp
    show ?thesis
      using n Some a b
      by (simp add: acquireSync_def createRequest_def Let_def serveRequest_body_held)
  qed
qed

text \<open>The relation between two states when resources are only passed on or dropped.\<close>

definition keeps :: "'v pool \<Rightarrow> 'v pool \<Rightarrow> bool" where
  "keeps s t \<longleftrightarrow> held t \<subseteq># held s \<and> nextResId t = nextResId s \<and> cfg t = cfg s"

lemma keeps_refl [simp]: "keeps s s"
  by (simp add: keeps_def)

lemma keeps_trans: "keeps s t \<Longrightarrow> keeps t u \<Longrightarrow> keeps s u"
  using subset_mset.order_trans by (fastforce simp: keeps_def)

lemma keeps_starve: "nextFreeResource s = (None, s1) \<Longrightarrow> keeps s s1"
  using nextFreeResource_heldD(1) [of s s1] nextResId_basic(10) [of s]
    nextFreeResource_frame(2) [of s]
  by (simp add: keeps_def)

text \<open>The first loop of \<open>_destroyDeadResources\<close> removes elements of the free list.\<close>

lemma mset_splice1_sub: "i < length xs \<Longrightarrow> mset (map f (splice1 xs i)) \<subseteq># mset (map f xs)"
proof -
  assume "i < length xs"
  then have "add_mset (f (xs ! i)) (mset (map f (splice1 xs i))) = mset (map f xs)"
    by (rule mset_splice1)
  moreover have "mset (map f (splice1 xs i)) \<subseteq># add_mset (f (xs ! i)) (mset (map f (splice1 xs i)))"
    by simp
  ultimately show ?thesis by simp
qed

lemma scanDead_sub:
  "n \<le> length free \<Longrightarrow>
     mset (map f (fst (scanDead isDead n (free, dead)))) \<subseteq># mset (map f free)"
proof (induction n arbitrary: free dead)
  case 0
  show ?case by simp
next
  case (Suc n)
  show ?case
  proof (cases "isDead (free ! n)")
    case True
    have l: "n \<le> length (splice1 free n)" using Suc.prems by (simp add: splice1_def)
    have "mset (map f (fst (scanDead isDead n (splice1 free n, dead @ [free ! n])))) \<subseteq>#
            mset (map f (splice1 free n))"
      by (rule Suc.IH [OF l])
    moreover have "mset (map f (splice1 free n)) \<subseteq># mset (map f free)"
      using Suc.prems mset_splice1_sub [of n free f] by simp
    ultimately show ?thesis using True subset_mset.order_trans by fastforce
  next
    case False
    then show ?thesis using Suc.IH [of free dead] Suc.prems by simp
  qed
qed

lemma destroyDeadResources_keeps: "keeps s (destroyDeadResources key tmo s)"
proof -
  obtain free dead where
    sd: "scanDead (\<lambda>r. js_gt (Num (clock s)) (js_add (key r) tmo))
           (length (freeResources s)) (freeResources s, []) = (free, dead)"
    by (cases "scanDead (\<lambda>r. js_gt (Num (clock s)) (js_add (key r) tmo))
           (length (freeResources s)) (freeResources s, [])")
  have "mset (map core free) \<subseteq># mset (map core (freeResources s))"
    using scanDead_sub [of "length (freeResources s)" "freeResources s" core
        "\<lambda>r. js_gt (Num (clock s)) (js_add (key r) tmo)" "[]"] sd by simp
  then have "held (s\<lparr>freeResources := free\<rparr>) \<subseteq># held s"
    by (simp add: held_def)
  then show ?thesis
    using sd by (simp add: destroyDeadResources_def Let_def keeps_def held_def)
qed

lemma destroyIdleExpired_keeps:
  "keeps s (destroyIdleResources s)" "keeps s (destroyExpiredResources s)"
  using destroyDeadResources_keeps [of s idleAt "idleTimeout (cfg s)"]
    destroyDeadResources_keeps [of s expiresAt "Num 0"]
  by (simp_all add: destroyIdleResources_def destroyExpiredResources_def keeps_def)


lemma served_held:
  "held (served req x s) = (case x of Inl e \<Rightarrow> held s | Inr r \<Rightarrow> add_mset (core r) (held s))"
  by (simp add: served_def serveRequest_body_held split: option.splits)

lemma served_nextResId [simp]: "nextResId (served req x s) = nextResId s"
  by (simp add: served_def split: option.splits)

lemma keeps_fail:
  "keeps s (served req (Inl e) (s\<lparr>agingRequests := a\<rparr>))"
  "keeps s (served req (Inl e) (s\<lparr>agelessRequests := b\<rparr>))"
  by (simp_all add: keeps_def served_held)

lemma keeps_serve:
  assumes "fst (nextFreeResource s) = Some res"
  shows "keeps s (served req (Inr res) ((snd (nextFreeResource s))\<lparr>agingRequests := a\<rparr>))"
    and "keeps s (served req (Inr res) ((snd (nextFreeResource s))\<lparr>agelessRequests := b\<rparr>))"
  using nextFreeResource_held [of s] assms by (simp_all add: keeps_def served_held)

lemma keeps_calls:
  "keeps s (rejected options dn e s)" "keeps s (enqueued options dn s)"
  "keeps s (snd (acquireSync opts s))" "keeps s (release v s)" "keeps s (destroy v s)"
  "keeps s (setMaintenanceInterval interval s)" "keeps s (waitDrain k s)"
  by (simp_all add: keeps_def acquireSync_held release_held destroy_held rejected_def
        enqueued_def createRequest_def served_held Let_def)

lemma drain_freeResources_keeps: "keeps s (drain_freeResources s)"
proof -
  have d: "keeps t (destroyResource (last (freeResources t))
             (t\<lparr>freeResources := butlast (freeResources t)\<rparr>))"
    if "freeResources t \<noteq> []" for t :: "'a pool"
  proof -
    have "mset (map core (butlast (freeResources t))) \<subseteq># mset (map core (freeResources t))"
      using that mset_splice1_sub [of "length (freeResources t) - 1" "freeResources t" core]
      by (simp add: splice1_def butlast_conv_take)
    then show ?thesis by (simp add: keeps_def held_def)
  qed
  have "keeps s (drain_freeResources s) \<and> freeResources (drain_freeResources s) = []"
  proof (rule drain_freeResources_rule [where P = "keeps s"])
    show "keeps s s" by simp
  next
    fix t :: "'a pool"
    assume "keeps s t" "freeResources t \<noteq> []"
    then show "keeps s (destroyResource (last (freeResources t))
                 (t\<lparr>freeResources := butlast (freeResources t)\<rparr>))"
      using d keeps_trans by blast
  qed
  then show ?thesis by simp
qed
text \<open>
  The cores of the resources created between two states: their numbers are different and lie
  between the counters of the two states, and each expiry is the creation time plus the
  configured lifetime, in JavaScript's arithmetic.
\<close>

definition made :: "nat \<Rightarrow> nat \<Rightarrow> jsval \<Rightarrow> 'v core multiset \<Rightarrow> bool" where
  "made a b lifetime N \<longleftrightarrow>
     image_mset fst N \<subseteq># mset_set {a..<b} \<and>
     (\<forall>c \<in># N. snd (snd (snd c)) = js_add (Num (fst (snd (snd c)))) lifetime)"

definition grows :: "'v pool \<Rightarrow> 'v pool \<Rightarrow> bool" where
  "grows s t \<longleftrightarrow>
     cfg t = cfg s \<and> nextResId s \<le> nextResId t \<and>
     (\<exists>N. held t \<subseteq># held s + N \<and> made (nextResId s) (nextResId t) (expireTimeout (cfg s)) N)"

lemma keeps_grows: "keeps s t \<Longrightarrow> grows s t"
  unfolding keeps_def grows_def made_def
  by (auto intro!: exI [of _ "{#}"])

lemma grows_refl [simp]: "grows s s"
  by (rule keeps_grows) simp

lemma mset_set_ivl_add:
  "a \<le> b \<Longrightarrow> b \<le> c \<Longrightarrow> mset_set {a..<b} + mset_set {b..<c} = mset_set {a..<c::nat}"
proof -
  assume "a \<le> b" "b \<le> c"
  then have "{a..<b} \<union> {b..<c} = {a..<c}" by auto
  moreover have "mset_set ({a..<b} \<union> {b..<c}) = mset_set {a..<b} + mset_set {b..<c}"
    by (rule mset_set_Union) auto
  ultimately show ?thesis by simp
qed

lemma grows_trans:
  assumes "grows s t" and "grows t u"
  shows "grows s u"
proof -
  from assms(1) obtain N where
    N: "held t \<subseteq># held s + N" "made (nextResId s) (nextResId t) (expireTimeout (cfg s)) N"
    and st: "cfg t = cfg s" "nextResId s \<le> nextResId t"
    by (auto simp: grows_def)
  from assms(2) obtain M where
    M: "held u \<subseteq># held t + M" "made (nextResId t) (nextResId u) (expireTimeout (cfg t)) M"
    and tu: "cfg u = cfg t" "nextResId t \<le> nextResId u"
    by (auto simp: grows_def)
  have "held t + M \<subseteq># held s + N + M" using N(1) by simp
  then have 1: "held u \<subseteq># held s + (N + M)"
    using M(1) subset_mset.order_trans by (fastforce simp: add.assoc)
  have "image_mset fst N + image_mset fst M \<subseteq>#
          mset_set {nextResId s..<nextResId t} + mset_set {nextResId t..<nextResId u}"
    using N(2) M(2) by (simp add: made_def subset_mset.add_mono)
  then have 2: "made (nextResId s) (nextResId u) (expireTimeout (cfg s)) (N + M)"
    using N(2) M(2) st tu by (auto simp: made_def mset_set_ivl_add)
  show ?thesis
    unfolding grows_def using 1 2 st tu by (auto intro!: exI [of _ "N + M"])
qed

lemma createCallback_grows: "grows s (createCallback result s)"
proof (cases result)
  case None
  then show ?thesis
    by (intro keeps_grows) (simp add: createCallback_def keeps_def Let_def split: option.splits)
next
  case (Some v)
  let ?c = "(nextResId s, v, clock s, js_add (Num (clock s)) (expireTimeout (cfg s)))"
  let ?r = "\<lparr>resId = nextResId s, rvalue = v, createdAt = clock s,
             expiresAt = js_add (Num (clock s)) (expireTimeout (cfg s)),
             idleAt = Undefined, request = None\<rparr>"
  let ?s2 = "(emit (EmitCreateSuccess v)
               (s\<lparr>creatingResourceCount := creatingResourceCount s - 1\<rparr>))
             \<lparr>nextResId := Suc (nextResId s)\<rparr>"
  have e: "createCallback result s = storeResource ?r ?s2"
    using Some by (simp add: createCallback_def Let_def emit_def)
  have "held (storeResource ?r ?s2) \<subseteq># add_mset (core ?r) (held ?s2)"
    by (rule storeResource_held)
  then have h: "held (createCallback result s) \<subseteq># held s + {#?c#}"
    by (simp add: e core_def)
  have m: "made (nextResId s) (Suc (nextResId s)) (expireTimeout (cfg s)) {#?c#}"
    by (simp add: made_def)
  have n: "nextResId (createCallback result s) = Suc (nextResId s)"
    by (simp add: e)
  show ?thesis
    unfolding grows_def using h m n by (auto intro!: exI [of _ "{#?c#}"])
qed

lemma createResource_grows: "grows s (createResource s)"
proof -
  let ?s1 = "emit FactoryCreate
               (s\<lparr>creatingResourceCount := creatingResourceCount s + 1,
                  createCalls := Suc (createCalls s)\<rparr>)"
  have 1: "grows s ?s1" by (intro keeps_grows) (simp add: keeps_def)
  have 2: "grows s (?s1\<lparr>pendingCreates := Suc (pendingCreates ?s1)\<rparr>)"
    by (intro keeps_grows) (simp add: keeps_def)
  have 3: "grows s (createCallback result ?s1)" for result
    by (rule grows_trans [OF 1 createCallback_grows])
  show ?thesis
    using 2 3 by (simp add: createResource_def Let_def split: outcome.splits)
qed

lemma createResources_grows: "grows s (createResources s)"
  unfolding createResources_def
proof (rule createLoop_rule [where P = "grows s"])
  show "grows s s" by simp
next
  fix t assume "grows s t"
  then show "grows s (createResource t)" by (rule grows_trans [OF _ createResource_grows])
qed


text \<open>Every step of the pool lets the resources grow in this sense.\<close>

lemma grows_step: "grows a s \<Longrightarrow> keeps s t \<Longrightarrow> grows a t"
  using grows_trans keeps_grows by blast

lemma grows_stable:
  "stable_calls (grows a)" "stable_drain (grows a)" "stable_timers (grows a)"
proof -
  show "stable_calls (grows a)"
    unfolding stable_calls_def
    by (intro conjI allI impI; (elim conjE)?; erule grows_step; rule keeps_calls)
  have f: "keeps s (s\<lparr>isDraining := True, maintenanceIntervalID := None\<rparr>)" for s :: "'a pool"
    by (simp add: keeps_def)
  have w: "keeps s (waitDrain dn (drain_freeResources s))" for s :: "'a pool" and dn
    using drain_freeResources_keeps [of s] by (simp add: keeps_def)
  show "stable_drain (grows a)"
    unfolding stable_drain_def
    by (intro conjI allI impI; (elim conjE)?; erule grows_step; rule f keeps_fail w)
  have m: "keeps s (destroyIdleResources (destroyExpiredResources (s\<lparr>isMaintaining := True\<rparr>)))"
    for s :: "'a pool"
  proof -
    have "keeps s (s\<lparr>isMaintaining := True\<rparr>)" by (simp add: keeps_def)
    then show ?thesis
      using destroyIdleExpired_keeps keeps_trans by blast
  qed
  have n: "keeps s (snd (nextFreeResource s))" if "fst (nextFreeResource s) = None"
    for s :: "'a pool"
    using that keeps_starve [of s "snd (nextFreeResource s)"]
    by (cases "nextFreeResource s") simp
  have c: "grows s ((createResources s)\<lparr>isMaintaining := False\<rparr>)" for s :: "'a pool"
  proof -
    have "keeps (createResources s) ((createResources s)\<lparr>isMaintaining := False\<rparr>)"
      by (simp add: keeps_def)
    then show ?thesis using createResources_grows grows_step by blast
  qed
  have k: "keeps s (s\<lparr>isMaintenanceScheduled := False\<rparr>)"
    "keeps s (s\<lparr>pendingTimeouts := x\<rparr>)" "keeps s (backoffTimer (s\<lparr>pendingBackoffs := y\<rparr>))"
    "keeps s (destroyCallback s)" "keeps s (emit e (s\<lparr>pendingTicks := ts\<rparr>))"
    "keeps s (waitDrain dn (s\<lparr>pendingTicks := ts\<rparr>))" "keeps s (s\<lparr>clock := z\<rparr>)"
    for s :: "'a pool" and x y e ts dn z
    by (simp_all add: keeps_def)
  have cc: "grows s (createCallback result (s\<lparr>pendingCreates := x\<rparr>))"
    for s :: "'a pool" and result x
  proof -
    have "keeps s (s\<lparr>pendingCreates := x\<rparr>)" by (simp add: keeps_def)
    then show ?thesis using createCallback_grows grows_trans keeps_grows by blast
  qed
  show "stable_timers (grows a)"
    unfolding stable_timers_def
  proof (intro conjI allI impI; (elim conjE)?)
    fix s :: "'a pool"
    assume "grows a s"
    then show "grows a ((createResources s)\<lparr>isMaintaining := False\<rparr>)"
      using c grows_trans by blast
  next
    fix s :: "'a pool" and result
    assume "grows a s"
    then show "grows a (createCallback result (s\<lparr>pendingCreates := pendingCreates s - 1\<rparr>))"
      using cc grows_trans by blast
  qed (erule grows_step; (rule m keeps_fail k | erule n keeps_serve))+
qed

lemma step_grows: "step n e s = Some t \<Longrightarrow> grows s t"
  using step_rule [OF grows_stable(1) first_drain_rule [OF grows_stable(2)] grows_stable(3),
      of s s n e t]
  by simp

lemma run_grows: "run n evs s = Some t \<Longrightarrow> grows s t"
  using run_rule [OF grows_stable(1) first_drain_rule [OF grows_stable(2)] grows_stable(3),
      of s s n evs t]
  by simp
definition res_inv :: "'v pool \<Rightarrow> bool" where
  "res_inv s \<longleftrightarrow>
     (\<forall>i. count (image_mset fst (held s)) i \<le> 1) \<and>
     (\<forall>c \<in># held s. fst c < nextResId s \<and>
        snd (snd (snd c)) = js_add (Num (fst (snd (snd c)))) (expireTimeout (cfg s)))"

lemma made_fst: "made a b l N \<Longrightarrow> c \<in># N \<Longrightarrow> a \<le> fst c \<and> fst c < b"
proof -
  assume m: "made a b l N" and c: "c \<in># N"
  then have "fst c \<in># image_mset fst N" by simp
  then have "fst c \<in># mset_set {a..<b}"
    using m mset_subset_eqD by (fastforce simp: made_def)
  then show ?thesis by simp
qed

lemma old_core:
  assumes "grows s t" and "c \<in># held t" and "fst c < nextResId s"
  shows "c \<in># held s"
proof -
  from assms(1) obtain N where
    N: "held t \<subseteq># held s + N" "made (nextResId s) (nextResId t) (expireTimeout (cfg s)) N"
    by (auto simp: grows_def)
  have "c \<in># held s + N" using N(1) assms(2) by (rule mset_subset_eqD)
  moreover have "c \<notin># N" using made_fst [OF N(2), of c] assms(3) by auto
  ultimately show ?thesis by simp
qed

lemma res_inv_grows:
  assumes "res_inv s" and "grows s t"
  shows "res_inv t"
proof -
  from assms(2) obtain N where
    N: "held t \<subseteq># held s + N" "made (nextResId s) (nextResId t) (expireTimeout (cfg s)) N"
    and st: "cfg t = cfg s" "nextResId s \<le> nextResId t"
    by (auto simp: grows_def)
  have ids: "count (image_mset fst (held t)) i \<le> 1" for i
  proof -
    have "image_mset fst (held t) \<subseteq># image_mset fst (held s) + image_mset fst N"
      using N(1) image_mset_subseteq_mono by fastforce
    then have a: "count (image_mset fst (held t)) i \<le>
                  count (image_mset fst (held s)) i + count (image_mset fst N) i"
      using mset_subset_eq_count by fastforce
    have b: "count (image_mset fst N) i \<le> count (mset_set {nextResId s..<nextResId t}) i"
      using N(2) mset_subset_eq_count by (fastforce simp: made_def)
    show ?thesis
    proof (cases "i < nextResId s")
      case True
      then have "count (mset_set {nextResId s..<nextResId t}) i = 0" by simp
      with a b assms(1) show ?thesis by (simp add: res_inv_def le_trans)
    next
      case False
      have "i \<notin># image_mset fst (held s)"
      proof
        assume "i \<in># image_mset fst (held s)"
        then obtain c where "c \<in># held s" "fst c = i" by auto
        with assms(1) False show False by (auto simp: res_inv_def)
      qed
      then have "count (image_mset fst (held s)) i = 0" by (simp add: count_eq_zero_iff)
      moreover have "count (mset_set {nextResId s..<nextResId t}) i \<le> 1"
        by (simp add: count_mset_set')
      ultimately show ?thesis using a b by simp
    qed
  qed
  have rest: "fst c < nextResId t \<and>
      snd (snd (snd c)) = js_add (Num (fst (snd (snd c)))) (expireTimeout (cfg t))"
    if "c \<in># held t" for c
  proof -
    have "c \<in># held s + N" using N(1) that by (rule mset_subset_eqD)
    then consider "c \<in># held s" | "c \<in># N" by auto
    then show ?thesis
    proof cases
      case 1
      with assms(1) st show ?thesis by (auto simp: res_inv_def)
    next
      case 2
      with N(2) made_fst [OF N(2) 2] st show ?thesis by (auto simp: made_def)
    qed
  qed
  show ?thesis unfolding res_inv_def using ids rest by blast
qed

lemma same_id:
  assumes "res_inv s" and "c \<in># held s" and "c' \<in># held s" and "fst c = fst c'"
  shows "c = c'"
proof (rule ccontr)
  assume ne: "c \<noteq> c'"
  obtain A where A: "held s = add_mset c A" using assms(2) by (meson mset_add)
  then have "c' \<in># A" using assms(3) ne by auto
  then obtain B where B: "A = add_mset c' B" by (meson mset_add)
  have "count (image_mset fst (held s)) (fst c) \<ge> 2"
    by (simp add: A B assms(4))
  moreover have "count (image_mset fst (held s)) (fst c) \<le> 1"
    using assms(1) by (simp add: res_inv_def)
  ultimately show False by simp
qed

lemma held_member: "r \<in> set (freeResources s @ lentResources s) \<Longrightarrow> core r \<in># held s"
  by (auto simp: held_def)


text \<open>The pool the constructor makes.\<close>

lemma maintain_idle:
  assumes "agingRequests s = []" and "agelessRequests s = []"
    and "\<not> isDraining s" and "\<not> isMaintaining s"
  shows "maintain k rc s =
           Some ((createResources (destroyIdleResources (destroyExpiredResources
                    (s\<lparr>isMaintaining := True\<rparr>))))\<lparr>isMaintaining := False\<rparr>)"
proof -
  let ?s3 = "destroyIdleResources (destroyExpiredResources (s\<lparr>isMaintaining := True\<rparr>))"
  have q: "agingRequests ?s3 = []" "agelessRequests ?s3 = []" using assms by simp_all
  have "serveAging_loop k rc now ?s3 = Some ?s3" for now using q by (cases k) simp_all
  moreover have "serveAgelessRequests k rc ?s3 = Some ?s3" using q by (cases k) simp_all
  ultimately show ?thesis
    using assms by (simp add: maintain_def serveAgingRequests_def Let_def)
qed

lemma newPool_unfold:
  "newPool options now =
     (let c = config_of options;
          interval = or_default (opt_maintenanceInterval options)
                       (min (idleCheckInterval c) (expireCheckInterval c));
          s = \<lparr>cfg = c, maintenanceInterval = interval,
               agingRequests = [], agelessRequests = [], freeResources = [], lentResources = [],
               creatingResourceCount = 0, destroyingResourceCount = 0,
               lastIdleCheckAt = 0, lastExpireCheckAt = 0,
               isDraining = False, isMaintaining = False, isMaintenanceScheduled = False,
               maintenanceIntervalID = None,
               clock = now, nextRid = 0, nextResId = 0, createCalls = 0,
               pendingCreates = 0, pendingBackoffs = 0, pendingTimeouts = 0, pendingTicks = [],
               trace = []\<rparr>
      in (createResources (destroyIdleResources (destroyExpiredResources
            ((setMaintenanceInterval interval s)\<lparr>isMaintaining := True\<rparr>))))
         \<lparr>isMaintaining := False\<rparr>)"
  by (simp add: newPool_def Let_def maintain_idle setMaintenanceInterval_def)

lemma newPool_maintain:
  "\<exists>s. \<not> isDraining s \<and> \<not> isMaintaining s \<and> agingRequests s = [] \<and> agelessRequests s = [] \<and>
       freeResources s = [] \<and> lentResources s = [] \<and> nextResId s = 0 \<and> nextRid s = 0 \<and>
       trace s = [] \<and> cfg s = config_of options \<and>
       (\<forall>k rc. maintain k rc s = Some (newPool options now))"
proof -
  let ?c = "config_of options"
  let ?i = "or_default (opt_maintenanceInterval options)
              (min (idleCheckInterval ?c) (expireCheckInterval ?c))"
  let ?s = "setMaintenanceInterval ?i
      \<lparr>cfg = ?c, maintenanceInterval = ?i,
       agingRequests = [], agelessRequests = [], freeResources = [], lentResources = [],
       creatingResourceCount = 0, destroyingResourceCount = 0,
       lastIdleCheckAt = 0, lastExpireCheckAt = 0,
       isDraining = False, isMaintaining = False, isMaintenanceScheduled = False,
       maintenanceIntervalID = None,
       clock = now, nextRid = 0, nextResId = 0, createCalls = 0,
       pendingCreates = 0, pendingBackoffs = 0, pendingTimeouts = 0, pendingTicks = [],
       trace = []\<rparr>"
  have q: "\<not> isDraining ?s" "\<not> isMaintaining ?s" "agingRequests ?s = []"
    "agelessRequests ?s = []"
    by (simp_all add: setMaintenanceInterval_def)
  have "maintain k rc ?s = Some (newPool options now)" for k rc
    by (simp add: maintain_idle [OF q(3,4,1,2)] newPool_def Let_def)
  moreover have "freeResources ?s = []" "lentResources ?s = []" "nextResId ?s = 0"
    "nextRid ?s = 0" "trace ?s = []" "cfg ?s = config_of options"
    by (simp_all add: setMaintenanceInterval_def)
  ultimately show ?thesis using q by blast
qed

lemma newPool_res_inv: "res_inv (newPool options now)" and
  newPool_cfg: "cfg (newPool options now) = config_of options"
proof -
  obtain s :: "'a pool" where s: "\<not> isDraining s" "freeResources s = []" "lentResources s = []"
    "cfg s = config_of options" "maintain 0 (run_calls 0) s = Some (newPool options now)"
    using newPool_maintain [of options now] by blast
  have g: "grows s (newPool options now)"
    using maintain_rule [OF grows_stable(3)
        run_calls_rule [OF grows_stable(1) first_drain_rule [OF grows_stable(2)]]
        grows_refl s(5)] .
  have "res_inv s"
    using s(2,3) by (simp add: res_inv_def held_def)
  then show "res_inv (newPool options now)" using g by (rule res_inv_grows)
  show "cfg (newPool options now) = config_of options"
    using g s(4) by (simp add: grows_def)
qed

lemma run_res_inv: "run n evs (newPool options now) = Some s \<Longrightarrow> res_inv s"
  using newPool_res_inv run_grows res_inv_grows by blast

lemma distinct_ids:
  assumes "res_inv s"
  shows "distinct (map resId (freeResources s @ lentResources s))"
proof -
  let ?xs = "map resId (freeResources s @ lentResources s)"
  have "image_mset fst (held s) = mset ?xs"
    by (simp add: held_def core_def multiset.map_comp comp_def)
  then have h: "count (mset ?xs) a \<le> 1" for a
    using assms by (simp add: res_inv_def)
  have "count (mset ?xs) a = (if a \<in> set ?xs then 1 else 0)" for a
  proof (cases "a \<in> set ?xs")
    case True
    then have "a \<in># mset ?xs" by (simp only: set_mset_mset)
    then have "0 < count (mset ?xs) a" by (simp only: count_greater_zero_iff)
    with h [of a] have "count (mset ?xs) a = 1" by linarith
    with True show ?thesis by (simp only: if_True)
  next
    case False
    then have "a \<notin># mset ?xs" by (simp only: set_mset_mset not_False_eq_True)
    then have "count (mset ?xs) a = 0" by (simp only: count_eq_zero_iff not_False_eq_True)
    with False show ?thesis by (simp only: if_False)
  qed
  then show ?thesis unfolding distinct_count_atmost_1 by blast
qed

section \<open>What a resource keeps for life\<close>

text \<open>
  C7. Take a state \<open>s\<close> that calls, timers and callbacks lead to from the constructor, and a
  state \<open>t\<close> that more of them lead to from \<open>s\<close>. A resource that the pool holds (free or lent) in
  \<open>t\<close> and that is the same object as one it holds in \<open>s\<close> has the \<open>value\<close>, \<open>createdAt\<close> and
  \<open>expiresAt\<close> it has in \<open>s\<close>; and no two resources the pool holds are the same object. Putting a
  resource back on the free list, \<open>_storeResource\<close> in a pool that is not draining and with a
  resource that validates, appends the resource with \<open>idleAt\<close> set to the clock and \<open>request\<close>
  deleted, and schedules maintenance; \<open>release\<close> hands the lent resource it finds to
  \<open>_storeResource\<close>.
\<close>

theorem resource_fields_never_change:
  fixes s t :: "'v pool"
  assumes "run n0 evs0 (newPool options now) = Some s" and "run n evs s = Some t"
  shows "(\<forall>r r'. r \<in> set (freeResources s @ lentResources s) \<and>
               r' \<in> set (freeResources t @ lentResources t) \<and> resId r' = resId r \<longrightarrow>
               rvalue r' = rvalue r \<and> createdAt r' = createdAt r \<and> expiresAt r' = expiresAt r) \<and>
         distinct (map resId (freeResources t @ lentResources t)) \<and>
         (\<forall>(u :: 'v pool) x. \<not> isDraining u \<and> validateResource (cfg u) x \<longrightarrow>
            storeResource x u =
              scheduleMaintainance
                (u\<lparr>freeResources := freeResources u @ [x\<lparr>request := None, idleAt := Num (clock u)\<rparr>]\<rparr>)) \<and>
         (\<forall>(u :: 'v pool) v. 0 \<le> getResourceIndex u (lentResources u) v \<longrightarrow>
            release v u =
              storeResource (lentResources u ! nat (getResourceIndex u (lentResources u) v))
                (emit (EmitRelease (lentResources u ! nat (getResourceIndex u (lentResources u) v)))
                   (u\<lparr>lentResources :=
                        splice1 (lentResources u) (nat (getResourceIndex u (lentResources u) v))\<rparr>)))"
proof -
  have i0: "res_inv s" using assms(1) by (rule run_res_inv)
  have g: "grows s t" using assms(2) by (rule run_grows)
  have it: "res_inv t" using i0 g by (rule res_inv_grows)
  have same: "core r' = core r"
    if "r \<in> set (freeResources s @ lentResources s)"
      "r' \<in> set (freeResources t @ lentResources t)" "resId r' = resId r" for r r'
  proof -
    have a: "core r \<in># held s" using that(1) by (rule held_member)
    have b: "core r' \<in># held t" using that(2) by (rule held_member)
    have "fst (core r) < nextResId s" using i0 a by (auto simp: res_inv_def)
    then have "fst (core r') < nextResId s" using that(3) by (simp add: core_def)
    with g b have "core r' \<in># held s" by (rule old_core)
    moreover have "fst (core r') = fst (core r)" using that(3) by (simp add: core_def)
    ultimately show ?thesis using i0 a same_id by blast
  qed
  have 1: "\<forall>r r'. r \<in> set (freeResources s @ lentResources s) \<and>
               r' \<in> set (freeResources t @ lentResources t) \<and> resId r' = resId r \<longrightarrow>
               rvalue r' = rvalue r \<and> createdAt r' = createdAt r \<and> expiresAt r' = expiresAt r"
  proof (intro allI impI)
    fix r r'
    assume "r \<in> set (freeResources s @ lentResources s) \<and>
            r' \<in> set (freeResources t @ lentResources t) \<and> resId r' = resId r"
    then have "core r' = core r" using same by blast
    then show "rvalue r' = rvalue r \<and> createdAt r' = createdAt r \<and> expiresAt r' = expiresAt r"
      by (simp add: core_def)
  qed
  have 2: "distinct (map resId (freeResources t @ lentResources t))"
    using it by (rule distinct_ids)
  show ?thesis using 1 2 by (simp add: storeResource_def release_def Let_def)
qed

text \<open>
  A pool with \<open>min = 1\<close> and \<open>expireTimeout = 500\<close>, made at time 100: its resource is acquired,
  and released at time 300.
\<close>

definition expiring_pool :: "nat pool" where
  "expiring_pool = newPool (test_options\<lparr>opt_min := Num 1, opt_expireTimeout := Num 500\<rparr>) 100"

definition reused_pool :: "nat pool" where
  "reused_pool = the (run 0 [AcquireSync None, ClockAdvance 300, Release 0] expiring_pool)"

theorem resource_fields_never_change_witness:
  "run 0 [] (newPool (test_options\<lparr>opt_min := Num 1, opt_expireTimeout := Num 500\<rparr>) 100) =
     Some expiring_pool \<and>
   run 0 [AcquireSync None, ClockAdvance 300, Release 0] expiring_pool = Some reused_pool \<and>
   freeResources expiring_pool =
     [\<lparr>resId = 0, rvalue = 0, createdAt = 100, expiresAt = Num 600, idleAt = Num 100,
       request = None\<rparr>] \<and>
   freeResources reused_pool =
     [\<lparr>resId = 0, rvalue = 0, createdAt = 100, expiresAt = Num 600, idleAt = Num 300,
       request = None\<rparr>] \<and>
   distinct (map resId (freeResources reused_pool @ lentResources reused_pool))"
proof -
  have a: "run 0 [] (newPool (test_options\<lparr>opt_min := Num 1, opt_expireTimeout := Num 500\<rparr>) 100) =
     Some expiring_pool"
    by (simp add: expiring_pool_def run_def)
  have e: "freeResources expiring_pool =
     [\<lparr>resId = 0, rvalue = 0, createdAt = 100, expiresAt = Num 600, idleAt = Num 100,
       request = None\<rparr>]"
    by (simp add: expiring_pool_def pool_defs pool_loops test_options_def
          cong: pool_cong)
  have b: "run 0 [AcquireSync None, ClockAdvance 300, Release 0] expiring_pool = Some reused_pool"
    and f: "freeResources reused_pool =
     [\<lparr>resId = 0, rvalue = 0, createdAt = 100, expiresAt = Num 600, idleAt = Num 300,
       request = None\<rparr>]"
    by (simp_all add: reused_pool_def expiring_pool_def pool_defs pool_loops test_options_def
          cong: pool_cong)
  show ?thesis
    using resource_fields_never_change [OF a b] a b e f by simp
qed

section \<open>The expiry of a new resource\<close>

text \<open>
  C8 as stated fails where no \<open>expireTimeout\<close> is configured: the record is made with
  \<open>expiresAt: now + that.expireTimeout\<close>, and a number plus \<open>undefined\<close> is \<open>NaN\<close>. The field is
  there, and it is not a number.
\<close>

theorem expiresAt_not_absent:
  "opt_expireTimeout (test_options\<lparr>opt_min := Num 1\<rparr>) = Undefined \<and>
   map expiresAt (freeResources (newPool (test_options\<lparr>opt_min := Num 1\<rparr>) 100)) = [NaN] \<and>
   NaN \<noteq> Undefined"
  by (simp add: pool_defs pool_loops test_options_def
        cong: pool_cong)

text \<open>
  C8, as amended. In every state that calls, timers and callbacks lead to from the
  constructor, every resource the pool holds has \<open>expiresAt = createdAt + expireTimeout\<close> when
  the option \<open>expireTimeout\<close> is a number, and \<open>expiresAt = NaN\<close> when it is not configured. The
  callback of a successful creation, in a pool that is not draining and with a resource that
  validates, appends to the free list the record with the value, with \<open>createdAt\<close> and \<open>idleAt\<close>
  the clock and with that \<open>expiresAt\<close>.
\<close>

theorem expiresAt_of_created_resource:
  fixes s :: "'v pool"
  assumes "run n evs (newPool options now) = Some s"
  shows "(\<forall>r. r \<in> set (freeResources s @ lentResources s) \<longrightarrow>
            expiresAt r =
              (case opt_expireTimeout options of
                 Num lifetime \<Rightarrow> Num (createdAt r + lifetime)
               | Undefined \<Rightarrow> NaN
               | NaN \<Rightarrow> NaN)) \<and>
         (\<forall>(u :: 'v pool) v.
            \<not> isDraining u \<and>
            validateResource (cfg u)
              \<lparr>resId = nextResId u, rvalue = v, createdAt = clock u,
               expiresAt = js_add (Num (clock u)) (expireTimeout (cfg u)),
               idleAt = Undefined, request = None\<rparr> \<longrightarrow>
            freeResources (createCallback (Some v) u) =
              freeResources u @
                [\<lparr>resId = nextResId u, rvalue = v, createdAt = clock u,
                  expiresAt = js_add (Num (clock u)) (expireTimeout (cfg u)),
                  idleAt = Num (clock u), request = None\<rparr>])"
proof -
  have i: "res_inv s" using assms by (rule run_res_inv)
  have c: "expireTimeout (cfg s) = opt_expireTimeout options"
    using run_cfg [OF assms] by (simp add: newPool_cfg config_of_def)
  have 1: "expiresAt r =
              (case opt_expireTimeout options of
                 Num lifetime \<Rightarrow> Num (createdAt r + lifetime)
               | Undefined \<Rightarrow> NaN
               | NaN \<Rightarrow> NaN)"
    if "r \<in> set (freeResources s @ lentResources s)" for r
  proof -
    have "core r \<in># held s" using that by (rule held_member)
    then have "expiresAt r = js_add (Num (createdAt r)) (expireTimeout (cfg s))"
      using i by (auto simp: res_inv_def core_def)
    then show ?thesis by (simp add: c split: jsval.splits)
  qed
  show ?thesis
    using 1 by (simp add: createCallback_def storeResource_def Let_def emit_def
        scheduleMaintainance_def)
qed

theorem expiresAt_of_created_resource_witness:
  "run 0 [] (newPool (test_options\<lparr>opt_min := Num 1, opt_expireTimeout := Num 500\<rparr>) 100) =
     Some expiring_pool \<and>
   map (\<lambda>r. (createdAt r, expiresAt r)) (freeResources expiring_pool) = [(100, Num 600)] \<and>
   lentResources expiring_pool = []"
proof -
  have a: "run 0 [] (newPool (test_options\<lparr>opt_min := Num 1, opt_expireTimeout := Num 500\<rparr>) 100) =
     Some expiring_pool"
    by (simp add: expiring_pool_def run_def)
  have e: "map (\<lambda>r. (createdAt r, expiresAt r)) (freeResources expiring_pool) = [(100, Num 600)]"
    "lentResources expiring_pool = []"
    by (simp_all add: expiring_pool_def pool_defs pool_loops test_options_def
          cong: pool_cong)
  show ?thesis
    using expiresAt_of_created_resource [OF a] a e by simp
qed

end
